theory Spec2Isabelle
  imports Main "HOL-Library.Char_ord" "HOL-Library.List_Lexorder"
begin

section \<open>The blog build script \<^verbatim>\<open>build.py\<close>\<close>

text \<open>
  A Python \<^verbatim>\<open>str\<close> is modelled as a HOL \<^typ>\<open>string\<close>: each \<^typ>\<open>char\<close> stands for one
  code point below 256. In that range the regular expression class \<^verbatim>\<open>\d\<close> is the ten ASCII
  digits, and the white space of \<^verbatim>\<open>str.strip()\<close> and of \<^verbatim>\<open>\s\<close> is the set given by
  \<open>is_space\<close> below. An exception of Python is a value \<open>Inl e\<close> of a sum type. The
  script runs on a POSIX system: paths of one directory compare as their names do, and a
  text file is written with the line ending it has in the string.
\<close>

subsection \<open>Characters and strings of Python\<close>

definition NL :: char where
  "NL = CHR 0x0A"

definition BSL :: char where
  "BSL = CHR 0x5C"

definition CR :: char where
  "CR = CHR 0x0D"

definition SQ :: char where
  "SQ = CHR 0x27"

definition DQ :: char where
  "DQ = CHR 0x22"

definition is_digit :: "char \<Rightarrow> bool" where
  "is_digit c = (CHR ''0'' \<le> c \<and> c \<le> CHR ''9'')"

text \<open>\<^verbatim>\<open>Py_UNICODE_ISSPACE\<close> on code points below 256: TAB, LF, VT, FF, CR, FS, GS, RS, US,
  SPACE, NEL and NBSP.\<close>

definition is_space :: "char \<Rightarrow> bool" where
  "is_space c = ((of_char c :: nat) \<in> {9, 10, 11, 12, 13, 28, 29, 30, 31, 32, 133, 160})"

text \<open>\<^verbatim>\<open>s.lstrip()\<close>, \<^verbatim>\<open>s.rstrip()\<close>, \<^verbatim>\<open>s.strip()\<close> and \<^verbatim>\<open>s.lstrip('#')\<close>.\<close>

definition lstrip :: "string \<Rightarrow> string" where
  "lstrip s = dropWhile is_space s"

definition rstrip :: "string \<Rightarrow> string" where
  "rstrip s = rev (dropWhile is_space (rev s))"

definition strip :: "string \<Rightarrow> string" where
  "strip s = rstrip (lstrip s)"

definition lstrip_chr :: "char \<Rightarrow> string \<Rightarrow> string" where
  "lstrip_chr x s = dropWhile (\<lambda>c. c = x) s"

text \<open>\<^verbatim>\<open>s.startswith(p)\<close>, and the rest of \<open>s\<close> behind the prefix \<open>p\<close>.\<close>

definition startswith :: "string \<Rightarrow> string \<Rightarrow> bool" where
  "startswith s p = (take (length p) s = p)"

definition strip_prefix :: "string \<Rightarrow> string \<Rightarrow> string option" where
  "strip_prefix p s = (if startswith s p then Some (drop (length p) s) else None)"

text \<open>\<^verbatim>\<open>s.split('\n')\<close>: never empty, \<^verbatim>\<open>''.split('\n') == ['']\<close>.\<close>

fun split_nl :: "string \<Rightarrow> string list" where
  "split_nl [] = [[]]"
| "split_nl (c # cs) =
     (if c = NL then [] # split_nl cs
      else (case split_nl cs of [] \<Rightarrow> [[c]] | l # ls \<Rightarrow> (c # l) # ls))"

subsection \<open>Text files\<close>

text \<open>
  A file is the string of its characters. \<^verbatim>\<open>open(path, 'r', encoding='utf-8')\<close> and
  \<^verbatim>\<open>f.read()\<close> read it in text mode with universal newlines: each of the line endings
  \<^verbatim>\<open>\r\n\<close> and \<^verbatim>\<open>\r\<close> comes out as \<^verbatim>\<open>\n\<close>. Writing in text mode leaves the string as it is.
\<close>

fun universal_newlines :: "string \<Rightarrow> string" where
  "universal_newlines [] = []"
| "universal_newlines [c] = (if c = CR then [NL] else [c])"
| "universal_newlines (c # d # ds) =
     (if c = CR \<and> d = NL then NL # universal_newlines ds
      else if c = CR then NL # universal_newlines (d # ds)
      else c # universal_newlines (d # ds))"

definition read_text :: "string \<Rightarrow> string" where
  "read_text raw = universal_newlines raw"

subsection \<open>Title and date extraction\<close>

text \<open>The loop \<^verbatim>\<open>for line in lines\<close> of \<^verbatim>\<open>extract_title_from_markdown\<close>: the first line
  whose stripped text is not empty and does not start with \<^verbatim>\<open>![[\<close> or \<^verbatim>\<open>![\<close>, cut to 50
  characters.\<close>

fun first_text_line :: "string list \<Rightarrow> string option" where
  "first_text_line [] = None"
| "first_text_line (l # ls) =
     (let line = strip l in
      if line \<noteq> [] \<and> \<not> startswith line ''![['' \<and> \<not> startswith line ''![''
      then Some (take 50 line)
      else first_text_line ls)"

definition extract_title_from_markdown :: "string \<Rightarrow> string option" where
  "extract_title_from_markdown content =
     (let lines = split_nl (strip content) in
      case lines of
        [] \<Rightarrow> None
      | l0 # _ \<Rightarrow>
          (let first_line = strip l0 in
           if startswith first_line ''#''
           then Some (strip (lstrip_chr (CHR ''#'') first_line))
           else first_text_line lines))"

text \<open>The pattern \<^verbatim>\<open>\d{n}\<close> at the start of a string: the digits matched and the rest.\<close>

fun re_digits :: "nat \<Rightarrow> string \<Rightarrow> (string \<times> string) option" where
  "re_digits 0 s = Some ([], s)"
| "re_digits (Suc n) [] = None"
| "re_digits (Suc n) (c # cs) =
     (if is_digit c
      then (case re_digits n cs of None \<Rightarrow> None | Some (ds, r) \<Rightarrow> Some (c # ds, r))
      else None)"

text \<open>\<^verbatim>\<open>re.match(r'(\d{2})(\d{2})(\d{2})', filename)\<close> and the f-string built from its groups.\<close>

definition parse_date_from_filename :: "string \<Rightarrow> string option" where
  "parse_date_from_filename filename =
     (case re_digits 2 filename of
        None \<Rightarrow> None
      | Some (yy, r1) \<Rightarrow>
          (case re_digits 2 r1 of
             None \<Rightarrow> None
           | Some (mm, r2) \<Rightarrow>
               (case re_digits 2 r2 of
                  None \<Rightarrow> None
                | Some (dd, r3) \<Rightarrow> Some (''20'' @ yy @ ''-'' @ mm @ ''-'' @ dd))))"

subsection \<open>The regular expressions of the script\<close>

text \<open>
  Each pattern of the script is translated into the function that the backtracking matcher
  of \<^verbatim>\<open>re\<close> computes for it at one start position: the captured group and the text behind
  the match, or \<open>None\<close> when the pattern does not match there.

  \<^verbatim>\<open>[^x]+x\<close> for a single character \<open>x\<close>: the greedy run takes every character up to the first
  \<open>x\<close>, must not be empty, and \<open>x\<close> must follow. Giving characters back cannot help, since
  the character behind a shorter run is not \<open>x\<close>.
\<close>

definition re_run_until :: "char \<Rightarrow> string \<Rightarrow> (string \<times> string) option" where
  "re_run_until x s =
     (let run = takeWhile (\<lambda>c. c \<noteq> x) s; r = dropWhile (\<lambda>c. c \<noteq> x) s in
      if run \<noteq> [] \<and> r \<noteq> [] then Some (run, tl r) else None)"

text \<open>\<^verbatim>\<open>!\[\[([^\]]+)\]\]\<close> at the start of \<open>s\<close>.\<close>

definition obsidian_match :: "string \<Rightarrow> (string \<times> string) option" where
  "obsidian_match s =
     (case strip_prefix ''![['' s of
        None \<Rightarrow> None
      | Some r \<Rightarrow>
          (case re_run_until (CHR '']'') r of
             None \<Rightarrow> None
           | Some (name, r') \<Rightarrow>
               (case r' of
                  [] \<Rightarrow> None
                | c # r'' \<Rightarrow> if c = CHR '']'' then Some (name, r'') else None)))"

text \<open>
  \<^verbatim>\<open>\]\((?:assets/)?([^\)]+)\)\<close> at the start of \<open>s\<close>: the optional group is tried first with
  \<^verbatim>\<open>assets/\<close> consumed and, when the rest then fails, without it.
\<close>

definition standard_tail :: "string \<Rightarrow> (string \<times> string) option" where
  "standard_tail s =
     (case strip_prefix ''](''  s of
        None \<Rightarrow> None
      | Some r \<Rightarrow>
          (case strip_prefix ''assets/'' r of
             None \<Rightarrow> re_run_until (CHR '')'') r
           | Some r' \<Rightarrow>
               (case re_run_until (CHR '')'') r' of
                  Some m \<Rightarrow> Some m
                | None \<Rightarrow> re_run_until (CHR '')'') r)))"

text \<open>
  \<^verbatim>\<open>.*?\<close> followed by the tail above: the lazy star tries the tail at once and otherwise
  consumes one more character, which must not be a line feed.
\<close>

fun standard_lazy :: "string \<Rightarrow> (string \<times> string) option" where
  "standard_lazy [] = standard_tail []"
| "standard_lazy (c # cs) =
     (case standard_tail (c # cs) of
        Some m \<Rightarrow> Some m
      | None \<Rightarrow> if c = NL then None else standard_lazy cs)"

text \<open>\<^verbatim>\<open>!\[.*?\]\((?:assets/)?([^\)]+)\)\<close> at the start of \<open>s\<close>.\<close>

definition standard_match :: "string \<Rightarrow> (string \<times> string) option" where
  "standard_match s =
     (case strip_prefix ''!['' s of None \<Rightarrow> None | Some r \<Rightarrow> standard_lazy r)"

text \<open>
  \<^verbatim>\<open>re.findall\<close> for a pattern with one group: scan from the left, collect the group of
  each match and go on behind it; where there is no match, move on by one character.
\<close>

function findall_obsidian :: "string \<Rightarrow> string list" where
  "findall_obsidian [] = []"
| "findall_obsidian (c # cs) =
     (case obsidian_match (c # cs) of
        Some (name, r) \<Rightarrow> name # findall_obsidian r
      | None \<Rightarrow> findall_obsidian cs)"
  by pat_completeness auto
termination
proof (relation "measure length")
  show "wf (measure length)" by simp
next
  fix c cs
  assume "obsidian_match (c # cs) = None"
  then show "(cs, c # cs) \<in> measure length" by simp
next
  fix c :: char and cs x2 name r
  assume m: "obsidian_match (c # cs) = Some x2" and x: "(name, r) = x2"
  have run: "length b \<le> length s" if "re_run_until y s = Some (a, b)" for y s a b
  proof -
    from that have "b = tl (dropWhile (\<lambda>c. c \<noteq> y) s)"
      by (auto simp: re_run_until_def Let_def split: if_splits)
    then have "length b \<le> length (dropWhile (\<lambda>c. c \<noteq> y) s)" by simp
    also have "\<dots> \<le> length s" by (rule length_dropWhile_le)
    finally show ?thesis .
  qed
  from m x have "length r < length (c # cs)"
    by (auto simp: obsidian_match_def strip_prefix_def startswith_def
        split: option.splits if_splits list.splits dest!: run)
  then show "(r, c # cs) \<in> measure length" by simp
qed

function findall_standard :: "string \<Rightarrow> string list" where
  "findall_standard [] = []"
| "findall_standard (c # cs) =
     (case standard_match (c # cs) of
        Some (name, r) \<Rightarrow> name # findall_standard r
      | None \<Rightarrow> findall_standard cs)"
  by pat_completeness auto
termination
proof (relation "measure length")
  show "wf (measure length)" by simp
next
  fix c cs
  assume "standard_match (c # cs) = None"
  then show "(cs, c # cs) \<in> measure length" by simp
next
  fix c :: char and cs x2 name r
  assume m: "standard_match (c # cs) = Some x2" and x: "(name, r) = x2"
  have run: "length b \<le> length s" if "re_run_until y s = Some (a, b)" for y s a b
  proof -
    from that have "b = tl (dropWhile (\<lambda>c. c \<noteq> y) s)"
      by (auto simp: re_run_until_def Let_def split: if_splits)
    then have "length b \<le> length (dropWhile (\<lambda>c. c \<noteq> y) s)" by simp
    also have "\<dots> \<le> length s" by (rule length_dropWhile_le)
    finally show ?thesis .
  qed
  have tail: "length b \<le> length s" if "standard_tail s = Some (a, b)" for s a b
    using that
    by (auto simp: standard_tail_def strip_prefix_def split: option.splits if_splits
        dest!: run)
  have lazy: "length b \<le> length s" if "standard_lazy s = Some (a, b)" for s a b
    using that
  proof (induction s)
    case Nil
    then show ?case using tail by fastforce
  next
    case (Cons d ds)
    then show ?case using tail
      by (fastforce split: option.splits if_splits)
  qed
  from m x have "length r < length (c # cs)"
    by (auto simp: standard_match_def strip_prefix_def startswith_def
        split: option.splits if_splits dest!: lazy)
  then show "(r, c # cs) \<in> measure length" by simp
qed

subsection \<open>Replacement templates of \<^verbatim>\<open>re.sub\<close>\<close>

text \<open>
  \<^verbatim>\<open>re.sub\<close> compiles its replacement string as a template before it searches
  (\<^verbatim>\<open>parse_template\<close> of the \<^verbatim>\<open>re\<close> module): a backslash starts a group reference
  (\<^verbatim>\<open>\1\<close>, \<^verbatim>\<open>\g<1>\<close>), an octal character code, or one of the escapes \<^verbatim>\<open>\a \b \f \n \r \t \v \\\<close>;
  a backslash before another ASCII letter, a reference to a group the pattern does not have,
  and a backslash at the end raise \<^verbatim>\<open>re.error\<close>; a backslash before any other character
  stays as it is. A group name that is not a decimal number is an error too (an
  \<^verbatim>\<open>IndexError\<close> for an identifier, since the patterns here have no named groups; for the other
  names this is the behaviour from Python 3.12 on).
\<close>

datatype error = Re_error

datatype piece = Literal char | Group nat

definition is_octdigit :: "char \<Rightarrow> bool" where
  "is_octdigit c = (CHR ''0'' \<le> c \<and> c \<le> CHR ''7'')"

definition is_ascii_letter :: "char \<Rightarrow> bool" where
  "is_ascii_letter c =
     ((CHR ''a'' \<le> c \<and> c \<le> CHR ''z'') \<or> (CHR ''A'' \<le> c \<and> c \<le> CHR ''Z''))"

definition digit_val :: "char \<Rightarrow> nat" where
  "digit_val c = of_char c - of_char (CHR ''0'')"

text \<open>\<^verbatim>\<open>int(digits, base)\<close> for a string of digits.\<close>

definition int_of_digits :: "nat \<Rightarrow> string \<Rightarrow> nat" where
  "int_of_digits base ds = foldl (\<lambda>n c. n * base + digit_val c) 0 ds"

text \<open>The table \<^verbatim>\<open>ESCAPES\<close>.\<close>

definition escapes :: "char \<Rightarrow> char option" where
  "escapes c =
     (if c = CHR ''a'' then Some (CHR 0x07)
      else if c = CHR ''b'' then Some (CHR 0x08)
      else if c = CHR ''f'' then Some (CHR 0x0C)
      else if c = CHR ''n'' then Some (CHR 0x0A)
      else if c = CHR ''r'' then Some (CHR 0x0D)
      else if c = CHR ''t'' then Some (CHR 0x09)
      else if c = CHR ''v'' then Some (CHR 0x0B)
      else if c = BSL then Some BSL
      else None)"

definition add_piece :: "piece \<Rightarrow> error + piece list \<Rightarrow> error + piece list" where
  "add_piece p r = (case r of Inl e \<Rightarrow> Inl e | Inr ps \<Rightarrow> Inr (p # ps))"

text \<open>\<open>parse_template groups s\<close>: \<open>groups\<close> is the number of groups of the pattern.\<close>

function parse_template :: "nat \<Rightarrow> string \<Rightarrow> error + piece list" where
  "parse_template groups [] = Inr []"
| "parse_template groups (c # cs) =
     (if c \<noteq> BSL then add_piece (Literal c) (parse_template groups cs)
      else case cs of
        [] \<Rightarrow> Inl Re_error
      | e # r \<Rightarrow>
          if e = CHR ''g'' then
            (let name = takeWhile is_digit (drop 1 r); r' = dropWhile is_digit (drop 1 r) in
             if startswith r ''<'' \<and> name \<noteq> [] \<and> startswith r' ''>''
                \<and> int_of_digits 10 name \<le> groups
             then add_piece (Group (int_of_digits 10 name)) (parse_template groups (drop 1 r'))
             else Inl Re_error)
          else if e = CHR ''0'' then
            (let ds = takeWhile is_octdigit (take 2 r) in
             add_piece (Literal (char_of (int_of_digits 8 ds)))
               (parse_template groups (drop (length ds) r)))
          else if is_digit e then
            (case r of
               d # r' \<Rightarrow>
                 if is_digit d then
                   (case r' of
                      o3 # r'' \<Rightarrow>
                        if is_octdigit e \<and> is_octdigit d \<and> is_octdigit o3 then
                          (if int_of_digits 8 [e, d, o3] > 255 then Inl Re_error
                           else add_piece (Literal (char_of (int_of_digits 8 [e, d, o3])))
                                  (parse_template groups r''))
                        else if int_of_digits 10 [e, d] \<le> groups
                        then add_piece (Group (int_of_digits 10 [e, d])) (parse_template groups r')
                        else Inl Re_error
                    | [] \<Rightarrow>
                        if int_of_digits 10 [e, d] \<le> groups
                        then add_piece (Group (int_of_digits 10 [e, d])) (parse_template groups r')
                        else Inl Re_error)
                 else if digit_val e \<le> groups
                 then add_piece (Group (digit_val e)) (parse_template groups r)
                 else Inl Re_error
             | [] \<Rightarrow>
                 if digit_val e \<le> groups
                 then add_piece (Group (digit_val e)) (parse_template groups r)
                 else Inl Re_error)
          else
            (case escapes e of
               Some x \<Rightarrow> add_piece (Literal x) (parse_template groups r)
             | None \<Rightarrow>
                 if is_ascii_letter e then Inl Re_error
                 else add_piece (Literal BSL) (add_piece (Literal e) (parse_template groups r))))"
  by pat_completeness auto
termination
proof (relation "measure (\<lambda>(g, s). length s)", goal_cases)
  case (3 groups c cs e r name r')
  have "length (drop 1 r') \<le> length r'" by simp
  also have "\<dots> \<le> length (drop 1 r)" unfolding 3 by (rule length_dropWhile_le)
  also have "\<dots> \<le> length r" by simp
  finally show ?case using 3 by simp
qed auto

text \<open>\<^verbatim>\<open>expand_template\<close>: \<open>gs ! i\<close> is group \<open>i\<close> of the match, group 0 the whole match.\<close>

fun expand_template :: "piece list \<Rightarrow> string list \<Rightarrow> string" where
  "expand_template [] gs = []"
| "expand_template (Literal c # ps) gs = c # expand_template ps gs"
| "expand_template (Group i # ps) gs =
     (if i < length gs then gs ! i else []) @ expand_template ps gs"

subsection \<open>Image references and their rewriting\<close>

definition extract_images_from_markdown :: "string \<Rightarrow> string list" where
  "extract_images_from_markdown content = findall_obsidian content @ findall_standard content"

text \<open>\<^verbatim>\<open>re.sub\<close> with the embed pattern and a compiled template.\<close>

function sub_obsidian :: "piece list \<Rightarrow> string \<Rightarrow> string" where
  "sub_obsidian t [] = []"
| "sub_obsidian t (c # cs) =
     (case obsidian_match (c # cs) of
        Some (name, r) \<Rightarrow>
          expand_template t [''![['' @ name @ '']]'', name] @ sub_obsidian t r
      | None \<Rightarrow> c # sub_obsidian t cs)"
  by pat_completeness auto
termination
proof (relation "measure (\<lambda>(t, s). length s)")
  show "wf (measure (\<lambda>(t :: piece list, s :: string). length s))" by simp
next
  fix t :: "piece list" and c cs
  assume "obsidian_match (c # cs) = None"
  then show "((t, cs), t, c # cs) \<in> measure (\<lambda>(t, s). length s)" by simp
next
  fix t :: "piece list" and c :: char and cs x2 name r
  assume m: "obsidian_match (c # cs) = Some x2" and x: "(name, r) = x2"
  have run: "length b \<le> length s" if "re_run_until y s = Some (a, b)" for y s a b
  proof -
    from that have "b = tl (dropWhile (\<lambda>c. c \<noteq> y) s)"
      by (auto simp: re_run_until_def Let_def split: if_splits)
    then have "length b \<le> length (dropWhile (\<lambda>c. c \<noteq> y) s)" by simp
    also have "\<dots> \<le> length s" by (rule length_dropWhile_le)
    finally show ?thesis .
  qed
  from m x have "length r < length (c # cs)"
    by (auto simp: obsidian_match_def strip_prefix_def startswith_def
        split: option.splits if_splits list.splits dest!: run)
  then show "((t, r), t, c # cs) \<in> measure (\<lambda>(t, s). length s)" by simp
qed

text \<open>The template is the f-string \<^verbatim>\<open>f'![](assets/{post_id}/\\1)'\<close>.\<close>

definition obsidian_template :: "string \<Rightarrow> string" where
  "obsidian_template pid = ''![](assets/'' @ pid @ ''/'' @ [BSL] @ ''1)''"

definition convert_obsidian_images :: "string \<Rightarrow> string \<Rightarrow> error + string" where
  "convert_obsidian_images markdown pid =
     (case parse_template 1 (obsidian_template pid) of
        Inl e \<Rightarrow> Inl e
      | Inr t \<Rightarrow> Inr (sub_obsidian t markdown))"

subsection \<open>The document processor\<close>

record post =
  post_id :: string
  post_date :: string
  post_title :: string
  post_images :: "string list"

text \<open>
  The directory \<^verbatim>\<open>blogs\<close> is the list of its files, name and characters, in the order in
  which the directory is enumerated. \<^verbatim>\<open>glob('*.md')\<close> keeps the names that end in \<^verbatim>\<open>.md\<close>;
  it does not descend into subdirectories.
\<close>

type_synonym directory = "(string \<times> string) list"

definition matches_md :: "string \<Rightarrow> bool" where
  "matches_md name = (3 \<le> length name \<and> drop (length name - 3) name = ''.md'')"

definition glob_md :: "directory \<Rightarrow> directory" where
  "glob_md d = filter (\<lambda>(name, content). matches_md name) d"

text \<open>\<^verbatim>\<open>name.rfind('.')\<close>, \<open>None\<close> standing for \<open>-1\<close>, and \<^verbatim>\<open>Path.stem\<close>.\<close>

fun rfind_dot :: "string \<Rightarrow> nat option" where
  "rfind_dot [] = None"
| "rfind_dot (c # cs) =
     (case rfind_dot cs of
        Some i \<Rightarrow> Some (Suc i)
      | None \<Rightarrow> if c = CHR ''.'' then Some 0 else None)"

definition path_stem :: "string \<Rightarrow> string" where
  "path_stem name =
     (case rfind_dot name of
        None \<Rightarrow> name
      | Some i \<Rightarrow> if 0 < i \<and> i + 1 < length name then take i name else name)"

text \<open>
  \<^verbatim>\<open>sorted(..., reverse=True)\<close> on the paths of one directory: they compare as their
  names do, code point by code point; the sort is stable with the list reversed before and
  after.
\<close>

definition sorted_reverse :: "directory \<Rightarrow> directory" where
  "sorted_reverse d = rev (sort_key fst (rev d))"

text \<open>The truth value of \<^verbatim>\<open>None\<close> and of a string in a condition.\<close>

fun truthy :: "string option \<Rightarrow> bool" where
  "truthy None = False"
| "truthy (Some s) = (s \<noteq> [])"

text \<open>
  The body of the loop over the files, with the files written so far (the directory
  \<^verbatim>\<open>docs/blogs\<close>, from names to contents) and \<^verbatim>\<open>posts_metadata\<close> as the state. An
  exception raised by \<^verbatim>\<open>convert_obsidian_images\<close> ends the run before the file is
  written.
\<close>

fun process_files ::
  "directory \<Rightarrow> (string \<rightharpoonup> string) \<Rightarrow> post list \<Rightarrow> error + ((string \<rightharpoonup> string) \<times> post list)"
where
  "process_files [] docs posts_metadata = Inr (docs, posts_metadata)"
| "process_files ((name, raw) # rest) docs posts_metadata =
     (let content = read_text raw;
          pid = path_stem name;
          title = extract_title_from_markdown content;
          date = parse_date_from_filename (path_stem name);
          images = extract_images_from_markdown content
      in case convert_obsidian_images content pid of
           Inl e \<Rightarrow> Inl e
         | Inr converted_content \<Rightarrow>
             process_files rest (docs(name \<mapsto> converted_content))
               (if truthy date \<and> truthy title
                then posts_metadata @
                       [\<lparr>post_id = pid, post_date = the date, post_title = the title,
                         post_images = images\<rparr>]
                else posts_metadata))"

definition process_markdown_files ::
  "directory \<Rightarrow> (string \<rightharpoonup> string) \<Rightarrow> error + ((string \<rightharpoonup> string) \<times> post list)"
where
  "process_markdown_files blogs docs = process_files (sorted_reverse (glob_md blogs)) docs []"

subsection \<open>The asset organizer\<close>

text \<open>
  The source tree \<^verbatim>\<open>blogs/assets\<close>: a directory holds files, name and content, and
  subdirectories. \<^verbatim>\<open>os.walk\<close> yields the file names of a directory before it descends into
  its subdirectories, in the order of the listing.
\<close>

datatype dir = Dir "(string \<times> string) list" "(string \<times> dir) list"

fun walk :: "dir \<Rightarrow> (string \<times> string) list list" where
  "walk (Dir fs subs) = fs # concat (map (\<lambda>nd. walk (snd nd)) subs)"

text \<open>The search for one image: the content of the first directory of the walk that has a
  file of this name.\<close>

fun find_image :: "string \<Rightarrow> (string \<times> string) list list \<Rightarrow> string option" where
  "find_image img [] = None"
| "find_image img (fs # rest) =
     (if img \<in> set (map fst fs) then map_of fs img else find_image img rest)"

text \<open>
  The destination \<^verbatim>\<open>docs/blogs/assets\<close> is a store: the files and the directories below
  it, each addressed by its path, the list of the names from the root down. The id of a
  record is the stem of a file name and starts with six digits, so it is one name.
\<close>

record tree =
  tree_files :: "string list \<rightharpoonup> string"
  tree_dirs :: "string list set"

definition empty_tree :: tree where
  "empty_tree = \<lparr>tree_files = Map.empty, tree_dirs = {[]}\<rparr>"

definition mkdir :: "string list \<Rightarrow> tree \<Rightarrow> tree" where
  "mkdir p t = t\<lparr>tree_dirs := insert p (tree_dirs t)\<rparr>"

definition copy_to :: "string list \<Rightarrow> string \<Rightarrow> tree \<Rightarrow> tree" where
  "copy_to p content t = t\<lparr>tree_files := (tree_files t)(p \<mapsto> content)\<rparr>"

fun copy_images :: "(string \<times> string) list list \<Rightarrow> string \<Rightarrow> string list \<Rightarrow> tree \<Rightarrow> tree" where
  "copy_images src pid [] t = t"
| "copy_images src pid (img # imgs) t =
     (case find_image img src of
        Some content \<Rightarrow> copy_images src pid imgs (copy_to [pid, img] content t)
      | None \<Rightarrow> copy_images src pid imgs t)"

fun organize_posts :: "(string \<times> string) list list \<Rightarrow> post list \<Rightarrow> tree \<Rightarrow> tree" where
  "organize_posts src [] t = t"
| "organize_posts src (p # ps) t =
     (if post_images p = [] then organize_posts src ps t
      else organize_posts src ps
             (copy_images src (post_id p) (post_images p) (mkdir [post_id p] t)))"

text \<open>\<open>None\<close> is a directory that does not exist: \<^verbatim>\<open>shutil.rmtree\<close> removes the destination
  when it is there, and \<^verbatim>\<open>mkdir(parents=True, exist_ok=True)\<close> makes it when it is not.\<close>

definition rmtree :: "tree option \<Rightarrow> tree option" where
  "rmtree t = None"

definition mkdir_root :: "tree option \<Rightarrow> tree" where
  "mkdir_root t = (case t of None \<Rightarrow> empty_tree | Some x \<Rightarrow> x)"

definition organize_assets :: "post list \<Rightarrow> dir option \<Rightarrow> tree option \<Rightarrow> tree option" where
  "organize_assets posts_metadata source_assets docs_assets =
     (case source_assets of
        None \<Rightarrow> docs_assets
      | Some src \<Rightarrow>
          (let d1 = (if docs_assets \<noteq> None then rmtree docs_assets else docs_assets);
               d2 = mkdir_root d1
           in Some (organize_posts (walk src) posts_metadata d2)))"

subsection \<open>The metadata publisher\<close>

text \<open>\<^verbatim>\<open>json.dumps\<close> of a list of strings, with \<^verbatim>\<open>ensure_ascii\<close>: every character outside
  \<^verbatim>\<open>' '..'~'\<close> is written as an escape.\<close>

definition hex_digit :: "nat \<Rightarrow> char" where
  "hex_digit n = ''0123456789abcdef'' ! (n mod 16)"

definition json_escape :: "char \<Rightarrow> string" where
  "json_escape c =
     (if c = DQ then [BSL, DQ]
      else if c = BSL then [BSL, BSL]
      else if c = CHR 0x0A then [BSL, CHR ''n'']
      else if c = CHR 0x0D then [BSL, CHR ''r'']
      else if c = CHR 0x09 then [BSL, CHR ''t'']
      else if c = CHR 0x08 then [BSL, CHR ''b'']
      else if c = CHR 0x0C then [BSL, CHR ''f'']
      else if CHR '' '' \<le> c \<and> c \<le> CHR ''~'' then [c]
      else [BSL, CHR ''u'', CHR ''0'', CHR ''0'',
            hex_digit (of_char c div 16), hex_digit (of_char c)])"

definition json_string :: "string \<Rightarrow> string" where
  "json_string s = [DQ] @ concat (map json_escape s) @ [DQ]"

fun join_comma :: "string list \<Rightarrow> string" where
  "join_comma [] = []"
| "join_comma [x] = x"
| "join_comma (x # y # ys) = x @ '', '' @ join_comma (y # ys)"

definition json_dumps :: "string list \<Rightarrow> string" where
  "json_dumps xs = ''['' @ join_comma (map json_string xs) @ '']''"

text \<open>\<^verbatim>\<open>title.replace("'", "\\'")\<close>.\<close>

definition escape_quotes :: "string \<Rightarrow> string" where
  "escape_quotes s = concat (map (\<lambda>c. if c = SQ then [BSL, SQ] else [c]) s)"

definition post_line :: "post \<Rightarrow> string" where
  "post_line p =
     ''    { id: '' @ [SQ] @ post_id p @ [SQ] @ '', date: '' @ [SQ] @ post_date p @ [SQ]
     @ '', title: '' @ [SQ] @ escape_quotes (post_title p) @ [SQ]
     @ '', images: '' @ json_dumps (post_images p) @ '' },'' @ [NL]"

definition metadata_js :: "post list \<Rightarrow> string" where
  "metadata_js posts_metadata =
     ''postsMetadata: ['' @ [NL] @ concat (map post_line posts_metadata) @ ''  ]''"

text \<open>
  \<^verbatim>\<open>postsMetadata:\s*\[[\s\S]*?\]\<close> at the start of \<open>s\<close>: the white space, the opening
  bracket, and lazily everything up to the first closing bracket. The result is the
  matched text and the text behind it.
\<close>

definition marker_match :: "string \<Rightarrow> (string \<times> string) option" where
  "marker_match s =
     (case strip_prefix ''postsMetadata:'' s of
        None \<Rightarrow> None
      | Some r \<Rightarrow>
          (case dropWhile is_space r of
             [] \<Rightarrow> None
           | c # r' \<Rightarrow>
               if c = CHR ''[''
               then (case dropWhile (\<lambda>c. c \<noteq> CHR '']'') r' of
                       [] \<Rightarrow> None
                     | c' # rest \<Rightarrow> Some (take (length s - length rest) s, rest))
               else None))"

text \<open>\<^verbatim>\<open>re.sub(pattern, template, content, count=1)\<close>: the leftmost match only.\<close>

fun sub_marker_once :: "piece list \<Rightarrow> string \<Rightarrow> string" where
  "sub_marker_once t [] = []"
| "sub_marker_once t (c # cs) =
     (case marker_match (c # cs) of
        Some (whole, rest) \<Rightarrow> expand_template t [whole] @ rest
      | None \<Rightarrow> c # sub_marker_once t cs)"

text \<open>The state is the file \<^verbatim>\<open>docs/js/blog.js\<close>, \<open>None\<close> when it does not exist. The
  template is compiled before the search; when that raises, nothing is written.\<close>

definition update_blog_js :: "post list \<Rightarrow> string option \<Rightarrow> error + string option" where
  "update_blog_js posts_metadata blog_js =
     (case blog_js of
        None \<Rightarrow> Inr None
      | Some raw \<Rightarrow>
          (let content = read_text raw in
           case parse_template 0 (metadata_js posts_metadata) of
             Inl e \<Rightarrow> Inl e
           | Inr t \<Rightarrow> Inr (Some (sub_marker_once t content))))"

subsection \<open>The marker region of the target script\<close>

text \<open>
  The marker region in the words of the specification: the token \<^verbatim>\<open>postsMetadata:\<close>, white
  space, and a bracketed list that ends at its first closing bracket.
\<close>

definition marker_region :: "string \<Rightarrow> bool" where
  "marker_region w =
     (\<exists>ws body. w = ''postsMetadata:'' @ ws @ ''['' @ body @ '']''
        \<and> list_all is_space ws \<and> CHR '']'' \<notin> set body)"

definition region_starts :: "string \<Rightarrow> bool" where
  "region_starts s = (\<exists>w r. s = w @ r \<and> marker_region w)"

subsection \<open>Lines of a document, in the words of the specification\<close>

text \<open>A line is blank when nothing is left of it once the white space around it is removed;
  a text line is a line that is not blank and does not start, behind its leading white
  space, with either image syntax.\<close>

definition nonblank :: "string \<Rightarrow> bool" where
  "nonblank l = (strip l \<noteq> [])"

definition is_text_line :: "string \<Rightarrow> bool" where
  "is_text_line l =
     (nonblank l \<and> \<not> startswith (strip l) ''![['' \<and> \<not> startswith (strip l) ''!['')"

definition stripped_lines :: "string \<Rightarrow> string list" where
  "stripped_lines content = filter (\<lambda>l. l \<noteq> []) (map strip (split_nl content))"

subsection \<open>The published metadata, in the words of the specification\<close>

text \<open>A document has metadata when both its date and its title resolved, as the condition
  \<^verbatim>\<open>if date and title\<close> tests it; its record is built from the file name and the content.
  The replacement template of a document id is usable when it compiles.\<close>

definition has_metadata :: "string \<times> string \<Rightarrow> bool" where
  "has_metadata f =
     (truthy (parse_date_from_filename (path_stem (fst f)))
      \<and> truthy (extract_title_from_markdown (read_text (snd f))))"

definition make_post :: "string \<times> string \<Rightarrow> post" where
  "make_post f =
     \<lparr>post_id = path_stem (fst f),
      post_date = the (parse_date_from_filename (path_stem (fst f))),
      post_title = the (extract_title_from_markdown (read_text (snd f))),
      post_images = extract_images_from_markdown (read_text (snd f))\<rparr>"

definition template_ok :: "string \<Rightarrow> bool" where
  "template_ok pid = (case parse_template 1 (obsidian_template pid) of Inl e \<Rightarrow> False | Inr t \<Rightarrow> True)"

subsection \<open>Image syntax, in the words of the specification\<close>

text \<open>An embed starts a string when the string is \<^verbatim>\<open>![[NAME]]\<close> followed by anything, the
  name not empty and free of closing brackets. The opening \<^verbatim>\<open>![[\<close> occurs in a string when
  some suffix of the string starts with it.\<close>

definition embed_at :: "string \<Rightarrow> bool" where
  "embed_at s = (\<exists>name r. s = ''![['' @ name @ '']]'' @ r \<and> name \<noteq> [] \<and> CHR '']'' \<notin> set name)"

fun contains_open :: "string \<Rightarrow> bool" where
  "contains_open [] = False"
| "contains_open (c # cs) = (startswith (c # cs) ''![['' \<or> contains_open cs)"

text \<open>The text that replaces an embed: standard syntax with the path
  \<^verbatim>\<open>assets/{document_id}/NAME\<close>.\<close>

definition standard_link :: "string \<Rightarrow> string \<Rightarrow> string" where
  "standard_link pid name = ''![](assets/'' @ pid @ ''/'' @ name @ '')''"

subsection \<open>Standard links, in the words of the specification\<close>

text \<open>A standard link starts a string when the string is \<^verbatim>\<open>![ALT](PATH)\<close> followed by
  anything, the alternative text on one line, the path not empty and free of closing
  parentheses. The name taken from a path is the path without one leading \<^verbatim>\<open>assets/\<close>,
  unless nothing would be left of it.\<close>

definition standard_at :: "string \<Rightarrow> bool" where
  "standard_at s =
     (\<exists>alt path r. s = ''!['' @ alt @ ''](''  @ path @ '')'' @ r
        \<and> NL \<notin> set alt \<and> path \<noteq> [] \<and> CHR '')'' \<notin> set path)"

definition strip_assets :: "string \<Rightarrow> string" where
  "strip_assets path =
     (if startswith path ''assets/'' \<and> path \<noteq> ''assets/'' then drop 7 path else path)"

text \<open>The closing part of a standard link starts a string when the string is \<^verbatim>\<open>](PATH)\<close>
  followed by anything, the path not empty and free of closing parentheses.\<close>

definition link_tail_at :: "string \<Rightarrow> bool" where
  "link_tail_at s =
     (\<exists>path r. s = ''](''  @ path @ '')'' @ r \<and> path \<noteq> [] \<and> CHR '')'' \<notin> set path)"

section \<open>Properties\<close>

subsection \<open>Dates\<close>


lemma re_digits_SomeD: "re_digits n s = Some (ds, r) \<Longrightarrow> s = ds @ r \<and> length ds = n \<and> list_all is_digit ds"
  by (induction n s arbitrary: ds r rule: re_digits.induct) (auto split: option.splits if_splits)

lemma re_digits_SomeI: "list_all is_digit ds \<Longrightarrow> re_digits (length ds) (ds @ r) = Some (ds, r)"
  by (induction ds) auto

lemma re_digits_None: "re_digits n s = None \<longleftrightarrow> \<not> (n \<le> length s \<and> list_all is_digit (take n s))"
  by (induction n s rule: re_digits.induct) (auto split: option.splits if_splits)

lemma re_digits_two:
  "re_digits 2 (a # b # r) = (if is_digit a \<and> is_digit b then Some ([a, b], r) else None)"
  by (simp add: numeral_2_eq_2)

lemma re_digits_two_short: "length s < 2 \<Longrightarrow> re_digits 2 s = None"
  by (simp add: re_digits_None)

lemma parse_date_digits:
  assumes "list_all is_digit [d1, d2, d3, d4, d5, d6]"
  shows "parse_date_from_filename (d1 # d2 # d3 # d4 # d5 # d6 # rest) =
           Some (''20'' @ [d1, d2] @ ''-'' @ [d3, d4] @ ''-'' @ [d5, d6])"
  using assms by (simp add: parse_date_from_filename_def re_digits_two)

lemma parse_date_absent:
  assumes "\<not> (6 \<le> length stem \<and> list_all is_digit (take 6 stem))"
  shows "parse_date_from_filename stem = None"
proof (rule ccontr)
  assume "parse_date_from_filename stem \<noteq> None"
  then obtain yy r1 mm r2 dd r3 where
    a: "re_digits 2 stem = Some (yy, r1)" and b: "re_digits 2 r1 = Some (mm, r2)"
    and c: "re_digits 2 r2 = Some (dd, r3)"
    by (auto simp: parse_date_from_filename_def split: option.splits)
  from re_digits_SomeD[OF a] re_digits_SomeD[OF b] re_digits_SomeD[OF c]
  have "stem = (yy @ mm @ dd) @ r3" "length (yy @ mm @ dd) = 6" "list_all is_digit (yy @ mm @ dd)"
    by auto
  then have "6 \<le> length stem \<and> list_all is_digit (take 6 stem)"
    by (metis append_eq_conv_conj le_add1 length_append)
  with assms show False by simp
qed

text \<open>
  Claim C4. \<^verbatim>\<open>parse_date\<close> returns a date exactly when the stem begins with six digits: for
  a stem beginning with the digits \<open>d1 \<dots> d6\<close> the result is \<open>20\<close>, \<open>d1 d2\<close>, a hyphen,
  \<open>d3 d4\<close>, a hyphen, \<open>d5 d6\<close>, with no check of month or day; for every stem whose first
  six characters are not all digits (or that is shorter) the result is absent. The stem
  \<^verbatim>\<open>230615-my-post\<close> gives \<^verbatim>\<open>2023-06-15\<close>, and \<^verbatim>\<open>notadate\<close> gives nothing.
\<close>

theorem parse_date_six_digits:
  "(list_all is_digit [d1, d2, d3, d4, d5, d6] \<longrightarrow>
      parse_date_from_filename (d1 # d2 # d3 # d4 # d5 # d6 # rest) =
        Some (''20'' @ [d1, d2] @ ''-'' @ [d3, d4] @ ''-'' @ [d5, d6]))
   \<and> (\<not> (6 \<le> length stem \<and> list_all is_digit (take 6 stem)) \<longrightarrow>
        parse_date_from_filename stem = None)
   \<and> parse_date_from_filename ''230615-my-post'' = Some ''2023-06-15''
   \<and> parse_date_from_filename ''notadate'' = None
   \<and> parse_date_from_filename ''239940'' = Some ''2023-99-40''"
proof -
  have "parse_date_from_filename ''230615-my-post'' = Some ''2023-06-15''"
    by (simp add: parse_date_from_filename_def re_digits_two is_digit_def)
  moreover have "parse_date_from_filename ''notadate'' = None"
    by (simp add: parse_date_from_filename_def re_digits_two is_digit_def)
  moreover have "parse_date_from_filename ''239940'' = Some ''2023-99-40''"
    by (simp add: parse_date_from_filename_def re_digits_two is_digit_def)
  ultimately show ?thesis
    using parse_date_digits parse_date_absent by blast
qed

theorem parse_date_six_digits_witness:
  "list_all is_digit ''230615''
   \<and> parse_date_from_filename ''230615-my-post'' = Some ''2023-06-15''
   \<and> \<not> (6 \<le> length ''23-06'' \<and> list_all is_digit (take 6 ''23-06''))
   \<and> parse_date_from_filename ''23-06'' = None"
  using parse_date_six_digits [of "CHR ''2''" "CHR ''3''" "CHR ''0''" "CHR ''6''" "CHR ''1''" "CHR ''5''"
      "''-my-post''" "''23-06''"]
  by (simp add: is_digit_def)

subsection \<open>The asset organizer\<close>

lemma organize_assets_Some:
  "organize_assets posts (Some src) d = Some (organize_posts (walk src) posts empty_tree)"
  by (cases d) (simp_all add: organize_assets_def rmtree_def mkdir_root_def)

lemma copy_images_files:
  "tree_files (copy_images src pid imgs t) path = Some x \<Longrightarrow>
     tree_files t path = Some x \<or> (\<exists>img \<in> set imgs. path = [pid, img] \<and> find_image img src = Some x)"
proof (induction imgs arbitrary: t)
  case Nil
  then show ?case by simp
next
  case (Cons a imgs)
  show ?case
  proof (cases "find_image a src")
    case None
    with Cons.prems have "tree_files (copy_images src pid imgs t) path = Some x" by simp
    from Cons.IH[OF this] show ?thesis by auto
  next
    case (Some y)
    with Cons.prems have
      "tree_files (copy_images src pid imgs (copy_to [pid, a] y t)) path = Some x" by simp
    from Cons.IH[OF this] Some show ?thesis
      by (auto simp: copy_to_def split: if_splits)
  qed
qed

lemma copy_images_dirs: "tree_dirs (copy_images src pid imgs t) = tree_dirs t"
  by (induction imgs arbitrary: t) (auto simp: copy_to_def split: option.splits)

lemma organize_posts_files:
  "tree_files (organize_posts src posts t) path = Some x \<Longrightarrow>
     tree_files t path = Some x \<or>
     (\<exists>p \<in> set posts. \<exists>img \<in> set (post_images p). path = [post_id p, img] \<and> find_image img src = Some x)"
proof (induction posts arbitrary: t)
  case Nil
  then show ?case by simp
next
  case (Cons p ps)
  show ?case
  proof (cases "post_images p = []")
    case True
    with Cons show ?thesis by auto
  next
    case False
    with Cons.prems have
      "tree_files (organize_posts src ps (copy_images src (post_id p) (post_images p) (mkdir [post_id p] t))) path = Some x"
      by simp
    from Cons.IH[OF this] show ?thesis
    proof
      assume "tree_files (copy_images src (post_id p) (post_images p) (mkdir [post_id p] t)) path = Some x"
      from copy_images_files[OF this] show ?thesis by (auto simp: mkdir_def)
    qed auto
  qed
qed

lemma organize_posts_dirs:
  "tree_dirs (organize_posts src posts t) \<subseteq> tree_dirs t \<union> (\<lambda>p. [post_id p]) ` set posts"
proof (induction posts arbitrary: t)
  case Nil
  then show ?case by simp
next
  case (Cons p ps)
  show ?case
  proof (cases "post_images p = []")
    case True
    then show ?thesis using Cons.IH[of t] by auto
  next
    case False
    then show ?thesis
      using Cons.IH[of "copy_images src (post_id p) (post_images p) (mkdir [post_id p] t)"]
      by (auto simp: copy_images_dirs mkdir_def)
  qed
qed

lemma copy_images_mono:
  "tree_files t path \<noteq> None \<Longrightarrow> tree_files (copy_images src pid imgs t) path \<noteq> None"
  by (induction imgs arbitrary: t) (auto simp: copy_to_def split: option.splits)

lemma copy_images_present:
  "img \<in> set imgs \<Longrightarrow> find_image img src \<noteq> None \<Longrightarrow>
     tree_files (copy_images src pid imgs t) [pid, img] \<noteq> None"
proof (induction imgs arbitrary: t)
  case Nil
  then show ?case by simp
next
  case (Cons a imgs)
  show ?case
  proof (cases "a = img")
    case True
    with Cons.prems obtain y where y: "find_image a src = Some y" by auto
    have "tree_files (copy_to [pid, a] y t) [pid, img] \<noteq> None"
      using True by (simp add: copy_to_def)
    from copy_images_mono[OF this] y show ?thesis by simp
  next
    case False
    with Cons.prems have "img \<in> set imgs" by simp
    from Cons.IH[OF this Cons.prems(2)] show ?thesis
      by (simp split: option.splits)
  qed
qed

lemma organize_posts_mono:
  "tree_files t path \<noteq> None \<Longrightarrow> tree_files (organize_posts src posts t) path \<noteq> None"
proof (induction posts arbitrary: t)
  case Nil
  then show ?case by simp
next
  case (Cons p ps)
  have "tree_files (copy_images src (post_id p) (post_images p) (mkdir [post_id p] t)) path \<noteq> None"
    using Cons.prems by (intro copy_images_mono) (simp add: mkdir_def)
  with Cons show ?case by simp
qed

lemma organize_posts_present:
  "p \<in> set posts \<Longrightarrow> img \<in> set (post_images p) \<Longrightarrow> find_image img src \<noteq> None \<Longrightarrow>
     tree_files (organize_posts src posts t) [post_id p, img] \<noteq> None"
proof (induction posts arbitrary: t)
  case Nil
  then show ?case by simp
next
  case (Cons q qs)
  show ?case
  proof (cases "q = p")
    case True
    with Cons.prems have ne: "post_images q \<noteq> []" by auto
    have "tree_files (copy_images src (post_id p) (post_images p) (mkdir [post_id p] t))
            [post_id p, img] \<noteq> None"
      using Cons.prems by (intro copy_images_present)
    from organize_posts_mono[OF this] True ne show ?thesis by simp
  next
    case False
    with Cons.prems have "p \<in> set qs" by simp
    from Cons.IH[OF this Cons.prems(2,3)] show ?thesis by simp
  qed
qed

lemma organize_posts_dirs_eq:
  "tree_dirs (organize_posts src posts t) =
     tree_dirs t \<union> (\<lambda>p. [post_id p]) ` {p \<in> set posts. post_images p \<noteq> []}"
proof (induction posts arbitrary: t)
  case Nil
  then show ?case by simp
next
  case (Cons p ps)
  show ?case
  proof (cases "post_images p = []")
    case True
    then show ?thesis using Cons.IH[of t] by auto
  next
    case False
    then show ?thesis
      using Cons.IH[of "copy_images src (post_id p) (post_images p) (mkdir [post_id p] t)"]
      by (auto simp: copy_images_dirs mkdir_def)
  qed
qed

text \<open>
  Claim C8. When the source asset tree exists, the organizer removes the destination root
  and makes it anew before it copies: running it a second time on the result of the first
  run gives the same destination tree, the result does not depend on what the destination
  held before, the root is there afterwards, its directories are the root and one folder
  for each record that has images, and every file in it is a copy made by this run (an
  image referenced by a record and found in the source tree), so a file or a folder left
  by an earlier build is gone.
\<close>

theorem organize_assets_reset:
  "organize_assets posts (Some src) (organize_assets posts (Some src) d) =
     organize_assets posts (Some src) d
   \<and> organize_assets posts (Some src) d = organize_assets posts (Some src) d'
   \<and> (\<exists>t. organize_assets posts (Some src) d = Some t
        \<and> (\<forall>path x. tree_files t path = Some x \<longrightarrow>
              (\<exists>p \<in> set posts. \<exists>img \<in> set (post_images p).
                  path = [post_id p, img] \<and> find_image img (walk src) = Some x))
        \<and> (\<forall>p \<in> set posts. \<forall>img \<in> set (post_images p).
              tree_files t [post_id p, img] = find_image img (walk src))
        \<and> [] \<in> tree_dirs t
        \<and> tree_dirs t =
            insert [] ((\<lambda>p. [post_id p]) ` {p \<in> set posts. post_images p \<noteq> []})
        \<and> tree_dirs t \<subseteq> insert [] ((\<lambda>p. [post_id p]) ` set posts))"
proof -
  let ?t = "organize_posts (walk src) posts empty_tree"
  have files: "\<exists>p \<in> set posts. \<exists>img \<in> set (post_images p).
          path = [post_id p, img] \<and> find_image img (walk src) = Some x"
    if "tree_files ?t path = Some x" for path x
    using organize_posts_files[OF that] by (simp add: empty_tree_def)
  have copied: "tree_files ?t [post_id p, img] = find_image img (walk src)"
    if p: "p \<in> set posts" and i: "img \<in> set (post_images p)" for p img
  proof (cases "tree_files ?t [post_id p, img]")
    case None
    with organize_posts_present[OF p i, of "walk src" empty_tree]
    have "find_image img (walk src) = None" by blast
    with None show ?thesis by simp
  next
    case (Some y)
    from files[OF this] show ?thesis using Some by auto
  qed
  have sub: "tree_dirs ?t \<subseteq> insert [] ((\<lambda>p. [post_id p]) ` set posts)"
    using organize_posts_dirs[of "walk src" posts empty_tree] by (simp add: empty_tree_def)
  have eq: "tree_dirs ?t =
      insert [] ((\<lambda>p. [post_id p]) ` {p \<in> set posts. post_images p \<noteq> []})"
    unfolding organize_posts_dirs_eq by (simp add: empty_tree_def)
  then have root: "[] \<in> tree_dirs ?t" by simp
  from files copied root eq sub show ?thesis
    unfolding organize_assets_Some by blast
qed

theorem organize_assets_reset_witness:
  "\<exists>t. organize_assets
          [\<lparr>post_id = ''230101-a'', post_date = ''2023-01-01'', post_title = ''A'',
            post_images = [''a.png'', ''gone.png'']\<rparr>]
          (Some (Dir [(''x.png'', ''X'')] [(''sub'', Dir [(''a.png'', ''A1'')] [])]))
          (Some \<lparr>tree_files = [[''221231-old'', ''stale.png''] \<mapsto> ''S''],
                 tree_dirs = {[], [''221231-old'']}\<rparr>) = Some t
     \<and> tree_files t [''221231-old'', ''stale.png''] = None
     \<and> tree_files t [''230101-a'', ''a.png''] = Some ''A1''
     \<and> tree_files t [''230101-a'', ''gone.png''] = None
     \<and> [''221231-old''] \<notin> tree_dirs t
     \<and> [] \<in> tree_dirs t
     \<and> [''230101-a''] \<in> tree_dirs t"
proof -
  let ?p = "\<lparr>post_id = ''230101-a'', post_date = ''2023-01-01'', post_title = ''A'',
            post_images = [''a.png'', ''gone.png'']\<rparr>"
  let ?posts = "[?p]"
  let ?src = "Dir [(''x.png'', ''X'')] [(''sub'', Dir [(''a.png'', ''A1'')] [])]"
  let ?old = "Some \<lparr>tree_files = [[''221231-old'', ''stale.png''] \<mapsto> ''S''],
                 tree_dirs = {[], [''221231-old'']}\<rparr>"
  note inst = organize_assets_reset[of ?posts ?src ?old None, THEN conjunct2, THEN conjunct2]
  from inst obtain t where t: "organize_assets ?posts (Some ?src) ?old = Some t"
    and rest: "(\<forall>path x. tree_files t path = Some x \<longrightarrow>
              (\<exists>p \<in> set ?posts. \<exists>img \<in> set (post_images p).
                  path = [post_id p, img] \<and> find_image img (walk ?src) = Some x))
        \<and> (\<forall>p \<in> set ?posts. \<forall>img \<in> set (post_images p).
              tree_files t [post_id p, img] = find_image img (walk ?src))
        \<and> [] \<in> tree_dirs t
        \<and> tree_dirs t =
            insert [] ((\<lambda>p. [post_id p]) ` {p \<in> set ?posts. post_images p \<noteq> []})
        \<and> tree_dirs t \<subseteq> insert [] ((\<lambda>p. [post_id p]) ` set ?posts)"
    by (elim exE conjE) (intro that conjI)
  from rest have files: "\<And>path x. tree_files t path = Some x \<Longrightarrow>
              (\<exists>p \<in> set ?posts. \<exists>img \<in> set (post_images p).
                  path = [post_id p, img] \<and> find_image img (walk ?src) = Some x)"
    by (elim conjE allE impE)
  from rest have copied: "\<forall>p \<in> set ?posts. \<forall>img \<in> set (post_images p).
              tree_files t [post_id p, img] = find_image img (walk ?src)"
    by (elim conjE)
  from rest have root: "[] \<in> tree_dirs t" by (elim conjE)
  from rest have dirs: "tree_dirs t \<subseteq> insert [] ((\<lambda>p. [post_id p]) ` set ?posts)"
    by (elim conjE)
  from rest have folders: "tree_dirs t =
            insert [] ((\<lambda>p. [post_id p]) ` {p \<in> set ?posts. post_images p \<noteq> []})"
    by (elim conjE)
  have 1: "tree_files t [''221231-old'', ''stale.png''] = None"
  proof (cases "tree_files t [''221231-old'', ''stale.png'']")
    case (Some x)
    from files[OF this] show ?thesis by simp
  qed simp
  from copied have 2: "tree_files t [''230101-a'', ''a.png''] = Some ''A1''"
    and 3: "tree_files t [''230101-a'', ''gone.png''] = None"
    by simp_all
  from dirs have 4: "[''221231-old''] \<notin> tree_dirs t" by auto
  have "?p \<in> {p \<in> set ?posts. post_images p \<noteq> []}" by simp
  then have "[post_id ?p] \<in> (\<lambda>p. [post_id p]) ` {p \<in> set ?posts. post_images p \<noteq> []}"
    by (rule imageI)
  then have 5: "[''230101-a''] \<in> tree_dirs t" unfolding folders by simp
  from t 1 2 3 4 root 5 show ?thesis by (intro exI[of _ t] conjI)
qed

subsection \<open>The metadata publisher\<close>

lemma startswith_append: "startswith s p \<longleftrightarrow> (\<exists>r. s = p @ r)"
  unfolding startswith_def
  by (metis append_eq_conv_conj append_take_drop_id)

lemma strip_prefix_Some: "strip_prefix p s = Some r \<longleftrightarrow> s = p @ r"
  by (auto simp: strip_prefix_def startswith_def)
     (metis append_take_drop_id)

lemma strip_prefix_None: "strip_prefix p s = None \<longleftrightarrow> \<not> (\<exists>r. s = p @ r)"
  by (simp add: strip_prefix_def startswith_append)

lemma marker_match_SomeD:
  assumes "marker_match s = Some (whole, rest)"
  shows "s = whole @ rest \<and> marker_region whole"
proof -
  from assms obtain r r' c' where
    r: "s = ''postsMetadata:'' @ r" and
    sp: "dropWhile is_space r = CHR ''['' # r'" and
    br: "dropWhile (\<lambda>c. c \<noteq> CHR '']'') r' = c' # rest" and
    w: "whole = take (length s - length rest) s"
    by (auto simp: marker_match_def strip_prefix_Some split: option.splits list.splits if_splits)
  let ?ws = "takeWhile is_space r" and ?body = "takeWhile (\<lambda>c. c \<noteq> CHR '']'') r'"
  from br have c': "c' = CHR '']''"
    using hd_dropWhile[of "\<lambda>c. c \<noteq> CHR '']''" r'] by force
  have "r = ?ws @ dropWhile is_space r" by simp
  also have "\<dots> = ?ws @ CHR ''['' # ?body @ dropWhile (\<lambda>c. c \<noteq> CHR '']'') r'"
    unfolding sp by simp
  finally have r_eq: "r = ?ws @ CHR ''['' # ?body @ CHR '']'' # rest"
    using br c' by simp
  have s_eq: "s = (''postsMetadata:'' @ ?ws @ ''['' @ ?body @ '']'') @ rest"
    using r r_eq by simp
  then have "whole = ''postsMetadata:'' @ ?ws @ ''['' @ ?body @ '']''"
    unfolding w by (metis add_diff_cancel_right' append_eq_conv_conj length_append)
  moreover have "list_all is_space ?ws"
    by (simp add: list_all_iff) (meson set_takeWhileD)
  moreover have "CHR '']'' \<notin> set ?body"
    using set_takeWhileD[of "CHR '']''" "\<lambda>c. c \<noteq> CHR '']''" r'] by blast
  ultimately show ?thesis using s_eq unfolding marker_region_def by blast
qed

lemma marker_match_region:
  assumes "marker_region w"
  shows "marker_match (w @ r) = Some (w, r)"
proof -
  from assms obtain ws body where w: "w = ''postsMetadata:'' @ ws @ ''['' @ body @ '']''"
    and ws: "list_all is_space ws" and body: "CHR '']'' \<notin> set body"
    unfolding marker_region_def by blast
  have 1: "strip_prefix ''postsMetadata:'' (w @ r) = Some (ws @ CHR ''['' # body @ CHR '']'' # r)"
    unfolding strip_prefix_Some w by simp
  have 2: "dropWhile is_space (ws @ CHR ''['' # body @ CHR '']'' # r) = CHR ''['' # body @ CHR '']'' # r"
    using ws by (subst dropWhile_append2) (auto simp: list_all_iff is_space_def)
  have 3: "dropWhile (\<lambda>c. c \<noteq> CHR '']'') (body @ CHR '']'' # r) = CHR '']'' # r"
    using body by (subst dropWhile_append2) auto
  show ?thesis
    by (simp add: marker_match_def 1 2 3)
qed

lemma marker_match_None: "marker_match s = None \<longleftrightarrow> \<not> region_starts s"
proof
  assume "marker_match s = None"
  then show "\<not> region_starts s"
    unfolding region_starts_def using marker_match_region by fastforce
next
  assume n: "\<not> region_starts s"
  show "marker_match s = None"
  proof (cases "marker_match s")
    case (Some m)
    then obtain w r where "marker_match s = Some (w, r)" by (cases m) auto
    from marker_match_SomeD[OF this] n show ?thesis
      unfolding region_starts_def by blast
  qed simp
qed

lemma sub_marker_once_cases:
  "(\<exists>pre whole rest. s = pre @ whole @ rest \<and> marker_region whole
       \<and> (\<forall>k < length pre. \<not> region_starts (drop k s))
       \<and> sub_marker_once t s = pre @ expand_template t [whole] @ rest)
   \<or> ((\<forall>k \<le> length s. \<not> region_starts (drop k s)) \<and> sub_marker_once t s = s)"
proof (induction s)
  case Nil
  have "marker_match [] = None" by (simp add: marker_match_def strip_prefix_def startswith_def)
  then show ?case by (simp add: marker_match_None)
next
  case (Cons c cs)
  show ?case
  proof (cases "marker_match (c # cs)")
    case (Some m)
    then obtain w r where m: "marker_match (c # cs) = Some (w, r)" by (cases m) auto
    from marker_match_SomeD[OF m] have "c # cs = [] @ w @ r" "marker_region w" by simp_all
    moreover have "sub_marker_once t (c # cs) = [] @ expand_template t [w] @ r"
      using m by simp
    ultimately show ?thesis by (metis list.size(3) not_less_zero)
  next
    case None
    then have step: "sub_marker_once t (c # cs) = c # sub_marker_once t cs" by simp
    from None have here: "\<not> region_starts (c # cs)" by (simp add: marker_match_None)
    from Cons.IH show ?thesis
    proof (elim disjE exE conjE)
      fix pre whole rest
      assume a: "cs = pre @ whole @ rest" "marker_region whole"
        "\<forall>k<length pre. \<not> region_starts (drop k cs)"
        "sub_marker_once t cs = pre @ expand_template t [whole] @ rest"
      have "\<forall>k < length (c # pre). \<not> region_starts (drop k (c # cs))"
      proof (intro allI impI)
        fix k assume "k < length (c # pre)"
        then show "\<not> region_starts (drop k (c # cs))"
          using a(3) here by (cases k) auto
      qed
      moreover have "c # cs = (c # pre) @ whole @ rest" using a(1) by simp
      moreover have "sub_marker_once t (c # cs) = (c # pre) @ expand_template t [whole] @ rest"
        using a(4) step by simp
      ultimately show ?thesis using a(2) by blast
    next
      assume a: "\<forall>k\<le>length cs. \<not> region_starts (drop k cs)" "sub_marker_once t cs = cs"
      have "\<forall>k \<le> length (c # cs). \<not> region_starts (drop k (c # cs))"
      proof (intro allI impI)
        fix k assume "k \<le> length (c # cs)"
        then show "\<not> region_starts (drop k (c # cs))"
          using a(1) here by (cases k) auto
      qed
      with a(2) step show ?thesis by simp
    qed
  qed
qed

lemma universal_newlines_id: "CR \<notin> set s \<Longrightarrow> universal_newlines s = s"
  by (induction s rule: universal_newlines.induct) auto

text \<open>
  Claim C9, as stated, fails for a script with a carriage return: the file is read in text
  mode, so the line ending \<^verbatim>\<open>\r\n\<close> in front of the marker region comes back as \<^verbatim>\<open>\n\<close>, and the
  three characters in front of the region are not the ones the file had.
\<close>

theorem update_blog_js_newline_counterexample:
  "update_blog_js [] (Some (''a'' @ [CR, NL] @ ''postsMetadata: [x] b'')) =
     Inr (Some (''a'' @ [NL] @ ''postsMetadata: ['' @ [NL] @ ''  ] b''))
   \<and> take 3 (''a'' @ [NL] @ ''postsMetadata: ['' @ [NL] @ ''  ] b'') \<noteq>
       take 3 (''a'' @ [CR, NL] @ ''postsMetadata: [x] b'')"
  by code_simp

text \<open>
  Claim C9, amended. When the publisher rewrites the script, it replaces one region only
  of the text of the script as read in text mode: the leftmost marker region (no region
  starts at an earlier position), by the expansion of the generated metadata; the text
  before and the text behind the region are kept as they are, so a later marker region is
  not replaced, and when there is no marker region the text is written back as it is. The
  text read is the file itself when the file has no carriage return.
\<close>

theorem update_blog_js_frame:
  assumes "update_blog_js posts (Some raw) = Inr result"
  shows "\<exists>t. parse_template 0 (metadata_js posts) = Inr t \<and>
     ((\<exists>pre whole rest. read_text raw = pre @ whole @ rest \<and> marker_region whole
         \<and> (\<forall>k < length pre. \<not> region_starts (drop k (read_text raw)))
         \<and> result = Some (pre @ expand_template t [whole] @ rest))
      \<or> ((\<forall>k \<le> length (read_text raw). \<not> region_starts (drop k (read_text raw)))
          \<and> result = Some (read_text raw)))
     \<and> (CR \<notin> set raw \<longrightarrow> read_text raw = raw)"
proof -
  from assms obtain t where t: "parse_template 0 (metadata_js posts) = Inr t"
    and r: "result = Some (sub_marker_once t (read_text raw))"
    by (auto simp: update_blog_js_def Let_def split: sum.splits)
  have "CR \<notin> set raw \<longrightarrow> read_text raw = raw"
    by (simp add: read_text_def universal_newlines_id)
  with sub_marker_once_cases[of "read_text raw" t] t r show ?thesis by auto
qed

theorem update_blog_js_frame_witness:
  "update_blog_js [] (Some ''a postsMetadata: [x] b postsMetadata: [y] c'') =
     Inr (Some (''a postsMetadata: ['' @ [NL] @ ''  ] b postsMetadata: [y] c''))
   \<and> CR \<notin> set ''a postsMetadata: [x] b postsMetadata: [y] c''
   \<and> (\<exists>t pre whole rest. parse_template 0 (metadata_js []) = Inr t
        \<and> ''a postsMetadata: [x] b postsMetadata: [y] c'' = pre @ whole @ rest
        \<and> marker_region whole
        \<and> ''a postsMetadata: ['' @ [NL] @ ''  ] b postsMetadata: [y] c'' =
             pre @ expand_template t [whole] @ rest)"
proof -
  let ?raw = "''a postsMetadata: [x] b postsMetadata: [y] c''"
  let ?out = "''a postsMetadata: ['' @ [NL] @ ''  ] b postsMetadata: [y] c''"
  have h: "update_blog_js [] (Some ?raw) = Inr (Some ?out)" by code_simp
  have c: "CR \<notin> set ?raw" by code_simp
  have ne: "?out \<noteq> ?raw" by code_simp
  from update_blog_js_frame[OF h] c obtain t where
    t: "parse_template 0 (metadata_js []) = Inr t" and
    d: "(\<exists>pre whole rest. ?raw = pre @ whole @ rest \<and> marker_region whole
          \<and> (\<forall>k < length pre. \<not> region_starts (drop k ?raw))
          \<and> Some ?out = Some (pre @ expand_template t [whole] @ rest))
        \<or> ((\<forall>k \<le> length ?raw. \<not> region_starts (drop k ?raw)) \<and> Some ?out = Some ?raw)"
    by (metis (no_types, lifting))
  from d ne have "\<exists>pre whole rest. ?raw = pre @ whole @ rest \<and> marker_region whole
          \<and> ?out = pre @ expand_template t [whole] @ rest"
    by (metis (no_types, lifting) option.inject)
  with t have "\<exists>t pre whole rest. parse_template 0 (metadata_js []) = Inr t
        \<and> ?raw = pre @ whole @ rest \<and> marker_region whole
        \<and> ?out = pre @ expand_template t [whole] @ rest"
    by blast
  with h c show ?thesis by (intro conjI)
qed

subsection \<open>Titles\<close>

lemma is_space_NL: "is_space NL"
  by (simp add: is_space_def NL_def)

lemma strip_Nil: "strip [] = []"
  by (simp add: strip_def lstrip_def rstrip_def)

lemma strip_space_Cons: "is_space x \<Longrightarrow> strip (x # l) = strip l"
  by (simp add: strip_def lstrip_def)

lemma rstrip_snoc: "rstrip (l @ [x]) = (if is_space x then rstrip l else l @ [x])"
  by (simp add: rstrip_def)

lemma strip_space_snoc: "is_space x \<Longrightarrow> strip (l @ [x]) = strip l"
proof -
  assume x: "is_space x"
  show ?thesis
  proof (cases "\<forall>c \<in> set l. is_space c")
    case True
    then have "lstrip (l @ [x]) = []" "lstrip l = []" using x by (simp_all add: lstrip_def)
    then show ?thesis by (simp add: strip_def)
  next
    case False
    then have "lstrip (l @ [x]) = lstrip l @ [x]"
      by (auto simp: lstrip_def dropWhile_append1)
    then show ?thesis using x by (simp add: strip_def rstrip_snoc)
  qed
qed

lemma split_nl_nonempty: "split_nl s \<noteq> []"
  by (induction s) (auto split: list.splits)

lemma split_nl_Cons:
  "split_nl (c # cs) = (if c = NL then [] # split_nl cs
                        else (c # hd (split_nl cs)) # tl (split_nl cs))"
  using split_nl_nonempty[of cs] by (cases "split_nl cs") auto

lemma split_nl_snoc_NL: "split_nl (xs @ [NL]) = split_nl xs @ [[]]"
proof (induction xs)
  case Nil
  then show ?case by simp
next
  case (Cons a xs)
  obtain l ls where s: "split_nl xs = l # ls"
    using split_nl_nonempty[of xs] by (cases "split_nl xs") auto
  with Cons show ?case by simp
qed

lemma split_nl_snoc:
  "x \<noteq> NL \<Longrightarrow> split_nl (xs @ [x]) = butlast (split_nl xs) @ [last (split_nl xs) @ [x]]"
proof (induction xs)
  case Nil
  then show ?case by simp
next
  case (Cons a xs)
  obtain l ls where s: "split_nl xs = l # ls"
    using split_nl_nonempty[of xs] by (cases "split_nl xs") auto
  show ?case
  proof (cases "a = NL")
    case True
    with Cons s show ?thesis by simp
  next
    case False
    with Cons s show ?thesis by (cases ls) auto
  qed
qed

lemma stripped_lines_space_Cons:
  assumes "is_space x"
  shows "stripped_lines (x # c) = stripped_lines c"
proof (cases "x = NL")
  case True
  then show ?thesis by (simp add: stripped_lines_def strip_Nil)
next
  case False
  obtain l ls where s: "split_nl c = l # ls"
    using split_nl_nonempty[of c] by (cases "split_nl c") auto
  with False assms show ?thesis
    by (simp add: stripped_lines_def strip_space_Cons)
qed

lemma stripped_lines_space_snoc:
  assumes "is_space x"
  shows "stripped_lines (c @ [x]) = stripped_lines c"
proof (cases "x = NL")
  case True
  then show ?thesis by (simp add: stripped_lines_def split_nl_snoc_NL strip_Nil)
next
  case False
  have "map strip (butlast (split_nl c) @ [last (split_nl c) @ [x]]) =
        map strip (butlast (split_nl c) @ [last (split_nl c)])"
    using assms by (simp add: strip_space_snoc)
  also have "\<dots> = map strip (split_nl c)"
    using split_nl_nonempty[of c] by simp
  finally show ?thesis
    using False by (simp add: stripped_lines_def split_nl_snoc)
qed

lemma stripped_lines_lstrip: "stripped_lines (lstrip c) = stripped_lines c"
  by (induction c) (auto simp: lstrip_def stripped_lines_space_Cons)

lemma stripped_lines_rstrip: "stripped_lines (rstrip c) = stripped_lines c"
  by (induction c rule: rev_induct)
    (auto simp: rstrip_snoc stripped_lines_space_snoc rstrip_def)

lemma stripped_lines_strip: "stripped_lines (strip c) = stripped_lines c"
  by (simp add: strip_def stripped_lines_rstrip stripped_lines_lstrip)


lemma startswith_embed: "startswith s ''![['' \<Longrightarrow> startswith s ''![''"
  unfolding startswith_append by auto

lemma first_text_line_find:
  "first_text_line ls = map_option (\<lambda>l. take 50 (strip l)) (find is_text_line ls)"
  by (induction ls) (auto simp: is_text_line_def nonblank_def Let_def)

lemma find_strip:
  assumes "\<not> Q []"
  shows "map_option strip (find (\<lambda>l. Q (strip l)) ls) =
         find Q (filter (\<lambda>l. l \<noteq> []) (map strip ls))"
  using assms by (induction ls) auto

lemma find_text_line_stripped:
  "map_option strip (find is_text_line (split_nl c)) =
     find (\<lambda>l. l \<noteq> [] \<and> \<not> startswith l ''![['' \<and> \<not> startswith l ''!['') (stripped_lines c)"
  unfolding stripped_lines_def is_text_line_def nonblank_def
  by (rule find_strip) simp

lemma find_nonblank_stripped:
  "map_option strip (find nonblank (split_nl c)) = find (\<lambda>l. l \<noteq> []) (stripped_lines c)"
  unfolding stripped_lines_def nonblank_def
  by (rule find_strip) simp

lemma find_text_line_strip:
  "map_option strip (find is_text_line (split_nl (strip c))) =
   map_option strip (find is_text_line (split_nl c))"
  by (simp add: find_text_line_stripped stripped_lines_strip)

lemma lstrip_no_space: "lstrip s \<noteq> [] \<Longrightarrow> \<not> is_space (hd (lstrip s))"
  unfolding lstrip_def by (rule hd_dropWhile)

lemma rstrip_hd: "rstrip s \<noteq> [] \<Longrightarrow> hd (rstrip s) = hd s"
proof (induction s rule: rev_induct)
  case Nil
  then show ?case by (simp add: rstrip_def)
next
  case (snoc x xs)
  then show ?case by (cases xs) (auto simp: rstrip_snoc rstrip_def split: if_splits)
qed

lemma strip_hd_no_space: "strip s \<noteq> [] \<Longrightarrow> \<not> is_space (hd (strip s))"
proof -
  assume a: "strip s \<noteq> []"
  then have "lstrip s \<noteq> []" by (auto simp: strip_def rstrip_def)
  from lstrip_no_space[OF this] rstrip_hd[of "lstrip s"] a show ?thesis
    by (simp add: strip_def)
qed

lemma strip_nonempty: "\<not> is_space x \<Longrightarrow> strip (x # l) \<noteq> []"
proof -
  assume x: "\<not> is_space x"
  then have "lstrip (x # l) = x # l" by (simp add: lstrip_def)
  moreover have "rstrip (x # l) \<noteq> []"
    using x by (simp add: rstrip_def dropWhile_append) 
  ultimately show ?thesis by (simp add: strip_def)
qed

lemma first_line_stripped:
  "strip (hd (split_nl (strip c))) = (case stripped_lines c of [] \<Rightarrow> [] | l # _ \<Rightarrow> l)"
proof (cases "strip c")
  case Nil
  have "stripped_lines c = stripped_lines (strip c)" by (simp add: stripped_lines_strip)
  also have "\<dots> = []" unfolding Nil by (simp add: stripped_lines_def strip_Nil)
  finally show ?thesis using Nil by (simp add: strip_Nil)
next
  case (Cons x xs)
  with strip_hd_no_space[of c] have x: "\<not> is_space x" by simp
  then have nl: "x \<noteq> NL" using is_space_NL by auto
  have "stripped_lines (strip c) = strip (x # hd (split_nl xs)) # filter (\<lambda>l. l \<noteq> []) (map strip (tl (split_nl xs)))"
    unfolding Cons stripped_lines_def using nl strip_nonempty[OF x]
    by (simp add: split_nl_Cons del: split_nl.simps)
  moreover have "hd (split_nl (strip c)) = x # hd (split_nl xs)"
    unfolding Cons using nl by (simp add: split_nl_Cons del: split_nl.simps)
  ultimately show ?thesis by (simp add: stripped_lines_strip)
qed

lemma first_line_find:
  "strip (hd (split_nl (strip c))) =
     (case find nonblank (split_nl c) of None \<Rightarrow> [] | Some l \<Rightarrow> strip l)"
proof -
  have "find (\<lambda>l. l \<noteq> []) (stripped_lines c) =
          (case stripped_lines c of [] \<Rightarrow> None | l # _ \<Rightarrow> Some l)"
    by (cases "stripped_lines c") (auto simp: stripped_lines_def dest: filter_eq_ConsD)
  with find_nonblank_stripped[of c] show ?thesis
    unfolding first_line_stripped
    by (cases "find nonblank (split_nl c)"; cases "stripped_lines c") auto
qed

lemma extract_title_unfold:
  "extract_title_from_markdown content =
     (let first_line = strip (hd (split_nl (strip content))) in
      if startswith first_line ''#''
      then Some (strip (lstrip_chr (CHR ''#'') first_line))
      else first_text_line (split_nl (strip content)))"
  using split_nl_nonempty[of "strip content"]
  by (cases "split_nl (strip content)") (auto simp: extract_title_from_markdown_def Let_def)

lemma startswith_Nil: "\<not> startswith [] ''#''"
  by (simp add: startswith_def)

lemma extract_title_heading:
  assumes "find nonblank (split_nl content) = Some l" and "startswith (strip l) ''#''"
  shows "extract_title_from_markdown content = Some (strip (lstrip_chr (CHR ''#'') (strip l)))"
  using assms by (simp add: extract_title_unfold first_line_find)

lemma extract_title_text:
  assumes "\<not> (\<exists>l. find nonblank (split_nl content) = Some l \<and> startswith (strip l) ''#'')"
  shows "extract_title_from_markdown content =
           map_option (\<lambda>l. take 50 (strip l)) (find is_text_line (split_nl content))"
proof -
  have "\<not> startswith (strip (hd (split_nl (strip content)))) ''#''"
    using assms startswith_Nil unfolding first_line_find
    by (cases "find nonblank (split_nl content)") auto
  then have "extract_title_from_markdown content = first_text_line (split_nl (strip content))"
    by (simp add: extract_title_unfold)
  also have "\<dots> = map_option (take 50) (map_option strip (find is_text_line (split_nl (strip content))))"
    by (simp add: first_text_line_find option.map_comp comp_def)
  also have "\<dots> = map_option (take 50) (map_option strip (find is_text_line (split_nl content)))"
    by (simp only: find_text_line_strip)
  finally show ?thesis by (simp add: option.map_comp comp_def)
qed

text \<open>
  Claim C5. When the first non-blank line of the content starts (behind its leading white
  space) with \<^verbatim>\<open>#\<close>, the title is that line without the white space around it, without
  its leading \<^verbatim>\<open>#\<close> characters, and without the white space around what is left. Otherwise
  the title is the first text line (not blank, not starting with either image syntax),
  without the white space around it and cut to 50 characters, and it is absent when there
  is no such line. The content \<^verbatim>\<open># Hello World\<close> has the title \<^verbatim>\<open>Hello World\<close>.
\<close>

theorem extract_title_cases:
  "(\<forall>l. find nonblank (split_nl content) = Some l \<and> startswith (strip l) ''#'' \<longrightarrow>
        extract_title_from_markdown content = Some (strip (lstrip_chr (CHR ''#'') (strip l))))
   \<and> (\<not> (\<exists>l. find nonblank (split_nl content) = Some l \<and> startswith (strip l) ''#'') \<longrightarrow>
        extract_title_from_markdown content =
          (case find is_text_line (split_nl content) of
             None \<Rightarrow> None
           | Some l \<Rightarrow> Some (take 50 (strip l))))
   \<and> extract_title_from_markdown ''# Hello World'' = Some ''Hello World''"
proof -
  have "extract_title_from_markdown ''# Hello World'' = Some ''Hello World''"
    by code_simp
  moreover have "extract_title_from_markdown content =
          (case find is_text_line (split_nl content) of
             None \<Rightarrow> None
           | Some l \<Rightarrow> Some (take 50 (strip l)))"
    if "\<not> (\<exists>l. find nonblank (split_nl content) = Some l \<and> startswith (strip l) ''#'')"
    using extract_title_text[OF that] by (simp split: option.splits)
  ultimately show ?thesis using extract_title_heading by blast
qed

theorem extract_title_cases_witness:
  "find nonblank (split_nl ([NL] @ ''  ## Hello  '' @ [NL] @ ''body'')) = Some ''  ## Hello  ''
   \<and> startswith (strip ''  ## Hello  '') ''#''
   \<and> extract_title_from_markdown ([NL] @ ''  ## Hello  '' @ [NL] @ ''body'') = Some ''Hello''
   \<and> \<not> (\<exists>l. find nonblank (split_nl (''![[a.png]]'' @ [NL] @ ''   hello world'')) = Some l
            \<and> startswith (strip l) ''#'')
   \<and> extract_title_from_markdown (''![[a.png]]'' @ [NL] @ ''   hello world'') =
        Some ''hello world''"
proof -
  let ?c1 = "[NL] @ ''  ## Hello  '' @ [NL] @ ''body''"
  let ?c2 = "''![[a.png]]'' @ [NL] @ ''   hello world''"
  have a: "find nonblank (split_nl ?c1) = Some ''  ## Hello  ''" by code_simp
  have b: "startswith (strip ''  ## Hello  '') ''#''" by code_simp
  have c: "strip (lstrip_chr (CHR ''#'') (strip ''  ## Hello  '')) = ''Hello''" by code_simp
  have d: "find nonblank (split_nl ?c2) = Some ''![[a.png]]''" by code_simp
  have e: "\<not> startswith (strip ''![[a.png]]'') ''#''" by code_simp
  have f: "find is_text_line (split_nl ?c2) = Some ''   hello world''" by code_simp
  have g: "take 50 (strip ''   hello world'') = ''hello world''" by code_simp
  from d e have n: "\<not> (\<exists>l. find nonblank (split_nl ?c2) = Some l \<and> startswith (strip l) ''#'')"
    by auto
  have "extract_title_from_markdown ?c1 = Some ''Hello''"
    using extract_title_cases[of ?c1, THEN conjunct1, THEN spec, THEN mp, OF conjI[OF a b]]
    by (simp only: c)
  moreover have "extract_title_from_markdown ?c2 = Some ''hello world''"
    using extract_title_cases[of ?c2, THEN conjunct2, THEN conjunct1, THEN mp, OF n]
    by (simp only: f g option.case)
  ultimately show ?thesis using a b n by (intro conjI)
qed

subsection \<open>The document processor\<close>

lemma convert_ok:
  "template_ok pid \<Longrightarrow> \<exists>x. convert_obsidian_images content pid = Inr x"
  by (auto simp: template_ok_def convert_obsidian_images_def split: sum.splits)

lemma convert_fails:
  "\<not> template_ok pid \<Longrightarrow> convert_obsidian_images content pid = Inl Re_error"
  by (auto simp: template_ok_def convert_obsidian_images_def split: sum.splits error.splits)
    (metis error.exhaust)

lemma process_files_step:
  assumes "convert_obsidian_images (read_text content) (path_stem name) = Inr x"
  shows "process_files ((name, content) # rest) docs acc =
           process_files rest (docs(name \<mapsto> x))
             (acc @ (if has_metadata (name, content) then [make_post (name, content)] else []))"
  using assms by (simp add: has_metadata_def make_post_def Let_def)

lemma process_files_result:
  assumes "\<forall>f \<in> set fs. template_ok (path_stem (fst f))"
  shows "\<exists>docs'. process_files fs docs acc =
            Inr (docs', acc @ map make_post (filter has_metadata fs))
          \<and> (\<forall>n. n \<notin> fst ` set fs \<longrightarrow> docs' n = docs n)
          \<and> (distinct (map fst fs) \<longrightarrow>
               (\<forall>f \<in> set fs. convert_obsidian_images (read_text (snd f)) (path_stem (fst f)) = Inr (the (docs' (fst f)))
                  \<and> docs' (fst f) \<noteq> None))"
  using assms
proof (induction fs arbitrary: docs acc)
  case Nil
  then show ?case by simp
next
  case (Cons f fs)
  obtain name content where f: "f = (name, content)" by (cases f)
  from Cons.prems f obtain x where x: "convert_obsidian_images (read_text content) (path_stem name) = Inr x"
    using convert_ok by fastforce
  let ?docs = "docs(name \<mapsto> x)"
  let ?acc = "acc @ (if has_metadata (name, content) then [make_post (name, content)] else [])"
  from Cons.prems have "\<forall>f \<in> set fs. template_ok (path_stem (fst f))" by simp
  from Cons.IH[OF this, of ?docs ?acc] obtain docs' where
    r: "process_files fs ?docs ?acc = Inr (docs', ?acc @ map make_post (filter has_metadata fs))"
    and keep: "\<forall>n. n \<notin> fst ` set fs \<longrightarrow> docs' n = ?docs n"
    and written: "distinct (map fst fs) \<longrightarrow>
               (\<forall>f \<in> set fs. convert_obsidian_images (read_text (snd f)) (path_stem (fst f)) = Inr (the (docs' (fst f)))
                  \<and> docs' (fst f) \<noteq> None)"
    by blast
  have 1: "process_files (f # fs) docs acc =
            Inr (docs', acc @ map make_post (filter has_metadata (f # fs)))"
    unfolding f process_files_step[OF x] r by simp
  have 2: "\<forall>n. n \<notin> fst ` set (f # fs) \<longrightarrow> docs' n = docs n"
    using keep f by auto
  have 3: "distinct (map fst (f # fs)) \<longrightarrow>
               (\<forall>g \<in> set (f # fs). convert_obsidian_images (read_text (snd g)) (path_stem (fst g)) = Inr (the (docs' (fst g)))
                  \<and> docs' (fst g) \<noteq> None)"
  proof (intro impI ballI)
    fix g assume d: "distinct (map fst (f # fs))" and g: "g \<in> set (f # fs)"
    show "convert_obsidian_images (read_text (snd g)) (path_stem (fst g)) = Inr (the (docs' (fst g)))
                  \<and> docs' (fst g) \<noteq> None"
    proof (cases "g = f")
      case True
      from d f have "name \<notin> fst ` set fs" by auto
      with keep have "docs' name = Some x" by simp
      with True f x show ?thesis by simp
    next
      case False
      with g have "g \<in> set fs" by simp
      with written d show ?thesis by simp
    qed
  qed
  from 1 2 3 show ?case by blast
qed

lemma set_sorted_reverse: "set (sorted_reverse d) = set d"
  by (simp add: sorted_reverse_def)

lemma distinct_sorted_reverse: "distinct (map fst (sorted_reverse d)) = distinct (map fst d)"
  by (simp add: sorted_reverse_def distinct_map)

lemma sorted_sorted_reverse: "sorted (rev (map fst (sorted_reverse d)))"
  by (simp add: sorted_reverse_def rev_map[symmetric] flip: rev_map)

lemma distinct_glob_md: "distinct (map fst d) \<Longrightarrow> distinct (map fst (glob_md d))"
  by (simp add: glob_md_def distinct_map_filter)

lemma rfind_dot_md: "rfind_dot (xs @ ''.md'') = Some (length xs)"
  by (induction xs) auto

lemma matches_md_append: "matches_md n \<longleftrightarrow> (\<exists>xs. n = xs @ ''.md'')"
proof
  assume "matches_md n"
  then have "n = take (length n - 3) n @ ''.md''"
    unfolding matches_md_def by (metis append_take_drop_id)
  then show "\<exists>xs. n = xs @ ''.md''" ..
next
  assume "\<exists>xs. n = xs @ ''.md''"
  then show "matches_md n" by (auto simp: matches_md_def)
qed

lemma path_stem_md: "xs \<noteq> [] \<Longrightarrow> path_stem (xs @ ''.md'') = xs"
  by (simp add: path_stem_def rfind_dot_md)

lemma path_stem_only_md: "path_stem ''.md'' = ''.md''"
  by (simp add: path_stem_def)


lemma parse_date_only_md: "parse_date_from_filename ''.md'' = None"
  by (simp add: parse_date_from_filename_def re_digits_two is_digit_def)

lemma stem_inj:
  assumes "matches_md a" and "matches_md b"
    and "truthy (parse_date_from_filename (path_stem a))" and "path_stem a = path_stem b"
  shows "a = b"
proof -
  from assms(1,2) obtain xs ys where a: "a = xs @ ''.md''" and b: "b = ys @ ''.md''"
    unfolding matches_md_append by blast
  have xs: "xs \<noteq> []"
    using assms(3) unfolding a by (auto simp: path_stem_only_md parse_date_only_md)
  then have sa: "path_stem a = xs" unfolding a by (rule path_stem_md)
  have ys: "ys \<noteq> []"
  proof
    assume "ys = []"
    with assms(4) sa b have "xs = ''.md''" by (simp add: path_stem_only_md)
    with assms(3) sa show False by (simp add: parse_date_only_md)
  qed
  then have "path_stem b = ys" unfolding b by (rule path_stem_md)
  with sa assms(4) a b show ?thesis by simp
qed

lemma stem_filename:
  assumes "matches_md a" and "truthy (parse_date_from_filename (path_stem a))"
  shows "path_stem a @ ''.md'' = a"
proof -
  from assms(1) obtain xs where a: "a = xs @ ''.md''"
    unfolding matches_md_append by blast
  have "xs \<noteq> []"
    using assms(2) unfolding a by (auto simp: path_stem_only_md parse_date_only_md)
  then show ?thesis unfolding a by (simp add: path_stem_md)
qed

lemma glob_md_matches: "f \<in> set (glob_md d) \<Longrightarrow> matches_md (fst f)"
  by (auto simp: glob_md_def)

lemma process_markdown_files_result:
  assumes "\<forall>f \<in> set (glob_md blogs). template_ok (path_stem (fst f))"
  shows "\<exists>docs'. process_markdown_files blogs docs =
            Inr (docs', map make_post (filter has_metadata (sorted_reverse (glob_md blogs))))
          \<and> (\<forall>n. n \<notin> fst ` set (glob_md blogs) \<longrightarrow> docs' n = docs n)
          \<and> (distinct (map fst blogs) \<longrightarrow>
               (\<forall>f \<in> set (glob_md blogs).
                  convert_obsidian_images (read_text (snd f)) (path_stem (fst f)) = Inr (the (docs' (fst f)))
                  \<and> docs' (fst f) \<noteq> None))"
proof -
  let ?fs = "sorted_reverse (glob_md blogs)"
  from assms have "\<forall>f \<in> set ?fs. template_ok (path_stem (fst f))"
    by (simp add: set_sorted_reverse)
  from process_files_result[OF this, of docs "[]"] obtain docs' where
    "process_files ?fs docs [] = Inr (docs', map make_post (filter has_metadata ?fs))"
    "\<forall>n. n \<notin> fst ` set (glob_md blogs) \<longrightarrow> docs' n = docs n"
    "distinct (map fst (glob_md blogs)) \<longrightarrow>
       (\<forall>f \<in> set (glob_md blogs).
          convert_obsidian_images (read_text (snd f)) (path_stem (fst f)) = Inr (the (docs' (fst f)))
          \<and> docs' (fst f) \<noteq> None)"
    by (auto simp: set_sorted_reverse distinct_sorted_reverse)
  then show ?thesis
    unfolding process_markdown_files_def using distinct_glob_md[of blogs] by blast
qed

lemma record_id_iff:
  assumes d: "distinct (map fst fs)" and m: "\<forall>f \<in> set fs. matches_md (fst f)"
    and s: "set fs' = set fs" and f: "f \<in> set fs"
  shows "(\<exists>p \<in> set (map make_post (filter has_metadata fs')). post_id p = path_stem (fst f))
           \<longleftrightarrow> has_metadata f"
proof
  assume "has_metadata f"
  with f s have "make_post f \<in> set (map make_post (filter has_metadata fs'))" by auto
  moreover have "post_id (make_post f) = path_stem (fst f)" by (simp add: make_post_def)
  ultimately show "\<exists>p \<in> set (map make_post (filter has_metadata fs')). post_id p = path_stem (fst f)"
    by blast
next
  assume "\<exists>p \<in> set (map make_post (filter has_metadata fs')). post_id p = path_stem (fst f)"
  then obtain g where g: "g \<in> set fs" "has_metadata g" "path_stem (fst g) = path_stem (fst f)"
    using s by (auto simp: make_post_def)
  from g(2) have "truthy (parse_date_from_filename (path_stem (fst g)))"
    by (simp add: has_metadata_def)
  from stem_inj[OF _ _ this g(3)] m g(1) f have "fst g = fst f" by blast
  with d g(1) f have "g = f"
    by (metis distinct_map inj_onD)
  with g(2) show "has_metadata f" by simp
qed


text \<open>
  Claim C6. For every document the processor handles, a metadata record is created if and
  only if both the title and the date resolved (a date was parsed and a non-empty title was
  found); a document lacking either has no record, and in every case the rewriting of its
  text, as read, is written under its file name. The run is one in which every
  replacement template compiles, and the directory lists each name once.
\<close>

theorem record_iff_title_and_date:
  assumes "\<forall>f \<in> set (glob_md blogs). template_ok (path_stem (fst f))"
    and "distinct (map fst blogs)"
  shows "\<exists>docs' posts. process_markdown_files blogs docs = Inr (docs', posts)
     \<and> (\<forall>f \<in> set (glob_md blogs).
           ((\<exists>p \<in> set posts. post_id p = path_stem (fst f)) \<longleftrightarrow> has_metadata f)
           \<and> (has_metadata f \<longrightarrow> make_post f \<in> set posts)
           \<and> (\<exists>x. convert_obsidian_images (read_text (snd f)) (path_stem (fst f)) = Inr x
                  \<and> docs' (fst f) = Some x))
     \<and> set posts = make_post ` {f \<in> set (glob_md blogs). has_metadata f}"
proof -
  let ?fs = "sorted_reverse (glob_md blogs)"
  let ?posts = "map make_post (filter has_metadata ?fs)"
  from process_markdown_files_result[OF assms(1), of docs] assms(2) obtain docs' where
    r: "process_markdown_files blogs docs = Inr (docs', ?posts)" and
    w: "\<forall>f \<in> set (glob_md blogs).
          convert_obsidian_images (read_text (snd f)) (path_stem (fst f)) = Inr (the (docs' (fst f)))
          \<and> docs' (fst f) \<noteq> None"
    by blast
  have iff: "(\<exists>p \<in> set ?posts. post_id p = path_stem (fst f)) \<longleftrightarrow> has_metadata f"
    if "f \<in> set (glob_md blogs)" for f
    using record_id_iff[OF distinct_glob_md[OF assms(2)] _ set_sorted_reverse that]
      glob_md_matches by blast
  have inc: "has_metadata f \<longrightarrow> make_post f \<in> set ?posts" if "f \<in> set (glob_md blogs)" for f
    using that by (auto simp: set_sorted_reverse)
  have wr: "\<exists>x. convert_obsidian_images (read_text (snd f)) (path_stem (fst f)) = Inr x \<and> docs' (fst f) = Some x"
    if "f \<in> set (glob_md blogs)" for f
    using w that by force
  have "set ?posts = make_post ` {f \<in> set (glob_md blogs). has_metadata f}"
    by (auto simp: set_sorted_reverse)
  with r iff inc wr show ?thesis by blast
qed

text \<open>
  Claim C7. The records come in the order of the file names, descending: the files that
  match the extension filter are sorted by name in reverse, the records are those of the
  documents with metadata in exactly this order, so leaving out the other documents does
  not reorder them, and the file names of the records (id and extension) descend.
\<close>

theorem records_ordered_by_filename:
  assumes "\<forall>f \<in> set (glob_md blogs). template_ok (path_stem (fst f))"
  shows "\<exists>docs' posts. process_markdown_files blogs docs = Inr (docs', posts)
     \<and> posts = map make_post (filter has_metadata (sorted_reverse (glob_md blogs)))
     \<and> map post_id posts =
         map (\<lambda>f. path_stem (fst f)) (filter has_metadata (sorted_reverse (glob_md blogs)))
     \<and> sorted (rev (map fst (sorted_reverse (glob_md blogs))))
     \<and> set (sorted_reverse (glob_md blogs)) = {f \<in> set blogs. matches_md (fst f)}
     \<and> sorted (rev (map (\<lambda>p. post_id p @ ''.md'') posts))"
proof -
  let ?fs = "sorted_reverse (glob_md blogs)"
  let ?posts = "map make_post (filter has_metadata ?fs)"
  from process_markdown_files_result[OF assms, of docs] obtain docs' where
    r: "process_markdown_files blogs docs = Inr (docs', ?posts)"
    by blast
  have ids: "map post_id ?posts = map (\<lambda>f. path_stem (fst f)) (filter has_metadata ?fs)"
    by (simp add: make_post_def comp_def)
  have s: "sorted (rev (map fst ?fs))" by (rule sorted_sorted_reverse)
  have g: "set ?fs = {f \<in> set blogs. matches_md (fst f)}"
    by (auto simp: set_sorted_reverse glob_md_def)
  have eq: "map (\<lambda>p. post_id p @ ''.md'') ?posts = map fst (filter has_metadata ?fs)"
  proof -
    have "post_id (make_post f) @ ''.md'' = fst f" if "f \<in> set ?fs" "has_metadata f" for f
      using that stem_filename[of "fst f"] g
      by (simp add: make_post_def has_metadata_def)
    then show ?thesis by (simp add: comp_def)
  qed
  have s2: "sorted (rev (map fst (filter has_metadata ?fs)))"
    using sorted_filter[of fst "rev ?fs" has_metadata] s
    by (simp add: rev_map rev_filter)
  have "sorted (rev (map (\<lambda>p. post_id p @ ''.md'') ?posts))"
    unfolding eq by (rule s2)
  with r ids s g show ?thesis by blast
qed

lemma only_hashes_title:
  assumes "find nonblank (split_nl content) = Some l" and "set (strip l) \<subseteq> {CHR ''#''}"
  shows "extract_title_from_markdown content = Some []"
proof -
  from assms(1) have "nonblank l" by (auto simp: find_Some_iff)
  then obtain x xs where x: "strip l = x # xs" by (cases "strip l") (auto simp: nonblank_def)
  with assms(2) have "x = CHR ''#''" by simp
  with x have sw: "startswith (strip l) ''#''" by (simp add: startswith_def)
  have "lstrip_chr (CHR ''#'') (strip l) = []"
    using assms(2) by (auto simp: lstrip_chr_def)
  with extract_title_heading[OF assms(1) sw] show ?thesis by (simp add: strip_Nil)
qed

text \<open>
  Claim C10. When the first non-blank line of a document consists of \<^verbatim>\<open>#\<close> characters
  only, the title is the empty string, not absent; the inclusion test takes the empty title
  for a missing one, so the document has no record in the published metadata, and its
  rewritten text is written all the same.
\<close>

theorem empty_heading_excluded:
  assumes "find nonblank (split_nl content) = Some l" and "set (strip l) \<subseteq> {CHR ''#''}"
  shows "extract_title_from_markdown content = Some []
     \<and> (\<forall>blogs docs raw.
          (name, raw) \<in> set (glob_md blogs) \<and> read_text raw = content
          \<and> distinct (map fst blogs)
          \<and> (\<forall>f \<in> set (glob_md blogs). template_ok (path_stem (fst f))) \<longrightarrow>
          (\<exists>docs' posts x. process_markdown_files blogs docs = Inr (docs', posts)
             \<and> (\<forall>p \<in> set posts. post_id p \<noteq> path_stem name)
             \<and> convert_obsidian_images content (path_stem name) = Inr x
             \<and> docs' name = Some x))"
proof -
  have t: "extract_title_from_markdown content = Some []"
    using assms by (rule only_hashes_title)
  have "\<exists>docs' posts x. process_markdown_files blogs docs = Inr (docs', posts)
             \<and> (\<forall>p \<in> set posts. post_id p \<noteq> path_stem name)
             \<and> convert_obsidian_images content (path_stem name) = Inr x
             \<and> docs' name = Some x"
    if f: "(name, raw) \<in> set (glob_md blogs)" and c: "read_text raw = content"
      and d: "distinct (map fst blogs)"
      and ok: "\<forall>f \<in> set (glob_md blogs). template_ok (path_stem (fst f))"
    for blogs docs raw
  proof -
    let ?fs = "sorted_reverse (glob_md blogs)"
    let ?posts = "map make_post (filter has_metadata ?fs)"
    from t c have nm: "\<not> has_metadata (name, raw)" by (simp add: has_metadata_def)
    from process_markdown_files_result[OF ok, of docs] d obtain docs' where
      r: "process_markdown_files blogs docs = Inr (docs', ?posts)" and
      w: "\<forall>f \<in> set (glob_md blogs).
          convert_obsidian_images (read_text (snd f)) (path_stem (fst f)) = Inr (the (docs' (fst f)))
          \<and> docs' (fst f) \<noteq> None"
      by blast
    from w f c have "\<exists>x. convert_obsidian_images content (path_stem name) = Inr x \<and> docs' name = Some x"
      by force
    moreover have "\<forall>p \<in> set ?posts. post_id p \<noteq> path_stem name"
      using record_id_iff[OF distinct_glob_md[OF d] _ set_sorted_reverse f] glob_md_matches nm
      by fastforce
    ultimately show ?thesis using r by blast
  qed
  with t show ?thesis by blast
qed

theorem record_iff_title_and_date_witness:
  "list_all (\<lambda>f. template_ok (path_stem (fst f)))
      (glob_md [(''230101-a.md'', ''# A'' @ [NL] @ ''![[x.png]]''), (''notes.txt'', ''zzz''),
                (''230102-b.md'', ''![[only.png]]'')])
   \<and> distinct (map fst [(''230101-a.md'', ''# A'' @ [NL] @ ''![[x.png]]''), (''notes.txt'', ''zzz''),
                        (''230102-b.md'', ''![[only.png]]'')])
   \<and> (\<exists>docs' posts.
         process_markdown_files
           [(''230101-a.md'', ''# A'' @ [NL] @ ''![[x.png]]''), (''notes.txt'', ''zzz''),
            (''230102-b.md'', ''![[only.png]]'')] Map.empty = Inr (docs', posts)
         \<and> (\<exists>p \<in> set posts. post_id p = ''230101-a'')
         \<and> \<not> (\<exists>p \<in> set posts. post_id p = ''230102-b'')
         \<and> docs' ''230102-b.md'' = Some ''![](assets/230102-b/only.png)'')"
proof -
  let ?a = "(''230101-a.md'', ''# A'' @ [NL] @ ''![[x.png]]'')"
  let ?b = "(''230102-b.md'', ''![[only.png]]'')"
  let ?B = "[?a, (''notes.txt'', ''zzz''), ?b]"
  have g: "glob_md ?B = [?a, ?b]" by code_simp
  have h1: "\<forall>f \<in> set (glob_md ?B). template_ok (path_stem (fst f))" by code_simp
  have h2: "distinct (map fst ?B)" by code_simp
  have ma: "has_metadata ?a" by code_simp
  have mb: "\<not> has_metadata ?b" by code_simp
  have sa: "path_stem (fst ?a) = ''230101-a''" by code_simp
  have sb: "path_stem (fst ?b) = ''230102-b''" by code_simp
  have cb: "convert_obsidian_images (read_text (snd ?b)) (path_stem (fst ?b)) =
              Inr ''![](assets/230102-b/only.png)''"
    by code_simp
  from record_iff_title_and_date[OF h1 h2, of Map.empty] obtain docs' posts where
    r: "process_markdown_files ?B Map.empty = Inr (docs', posts)" and
    p: "\<forall>f \<in> set (glob_md ?B).
           ((\<exists>p \<in> set posts. post_id p = path_stem (fst f)) \<longleftrightarrow> has_metadata f)
           \<and> (has_metadata f \<longrightarrow> make_post f \<in> set posts)
           \<and> (\<exists>x. convert_obsidian_images (read_text (snd f)) (path_stem (fst f)) = Inr x
                  \<and> docs' (fst f) = Some x)"
    by blast
  have ina: "?a \<in> set (glob_md ?B)" and inb: "?b \<in> set (glob_md ?B)"
    unfolding g by simp_all
  from p[rule_format, OF ina] ma sa have 1: "\<exists>p \<in> set posts. post_id p = ''230101-a''"
    by simp
  from p[rule_format, OF inb] mb sb have 2: "\<not> (\<exists>p \<in> set posts. post_id p = ''230102-b'')"
    by simp
  from p[rule_format, OF inb] cb have 3: "docs' ''230102-b.md'' = Some ''![](assets/230102-b/only.png)''"
    by simp
  from h1 have h1': "list_all (\<lambda>f. template_ok (path_stem (fst f))) (glob_md ?B)"
    by (simp only: list_all_iff)
  from r 1 2 3 have "\<exists>docs' posts. process_markdown_files ?B Map.empty = Inr (docs', posts)
         \<and> (\<exists>p \<in> set posts. post_id p = ''230101-a'')
         \<and> \<not> (\<exists>p \<in> set posts. post_id p = ''230102-b'')
         \<and> docs' ''230102-b.md'' = Some ''![](assets/230102-b/only.png)''" by blast
  with h1' h2 show ?thesis by (intro conjI)
qed

theorem records_ordered_by_filename_witness:
  "list_all (\<lambda>f. template_ok (path_stem (fst f)))
      (glob_md [(''230101-a.md'', ''# A''), (''230301-c.md'', ''# C''),
                (''230201-b.md'', ''![[x.png]]''), (''230102-d.md'', ''# D'')])
   \<and> (\<exists>docs' posts.
         process_markdown_files
           [(''230101-a.md'', ''# A''), (''230301-c.md'', ''# C''),
            (''230201-b.md'', ''![[x.png]]''), (''230102-d.md'', ''# D'')] Map.empty = Inr (docs', posts)
         \<and> map post_id posts = [''230301-c'', ''230102-d'', ''230101-a''])"
proof -
  let ?B = "[(''230101-a.md'', ''# A''), (''230301-c.md'', ''# C''),
            (''230201-b.md'', ''![[x.png]]''), (''230102-d.md'', ''# D'')]"
  have h: "\<forall>f \<in> set (glob_md ?B). template_ok (path_stem (fst f))" by code_simp
  have e: "map (\<lambda>f. path_stem (fst f)) (filter has_metadata (sorted_reverse (glob_md ?B))) =
             [''230301-c'', ''230102-d'', ''230101-a'']"
    by code_simp
  from records_ordered_by_filename[OF h, of Map.empty] obtain docs' posts where
    "process_markdown_files ?B Map.empty = Inr (docs', posts)"
    "map post_id posts =
       map (\<lambda>f. path_stem (fst f)) (filter has_metadata (sorted_reverse (glob_md ?B)))"
    by blast
  with e have "\<exists>docs' posts. process_markdown_files ?B Map.empty = Inr (docs', posts)
         \<and> map post_id posts = [''230301-c'', ''230102-d'', ''230101-a'']"
    by (metis (no_types, lifting))
  moreover from h have "list_all (\<lambda>f. template_ok (path_stem (fst f))) (glob_md ?B)"
    by (simp only: list_all_iff)
  ultimately show ?thesis by (intro conjI)
qed

theorem empty_heading_excluded_witness:
  "find nonblank (split_nl (''###'' @ [NL] @ ''text'')) = Some ''###''
   \<and> set (strip ''###'') \<subseteq> {CHR ''#''}
   \<and> extract_title_from_markdown (''###'' @ [NL] @ ''text'') = Some []
   \<and> (\<exists>docs' posts. process_markdown_files [(''230102-b.md'', ''###'' @ [NL] @ ''text'')] Map.empty
          = Inr (docs', posts)
        \<and> (\<forall>p \<in> set posts. post_id p \<noteq> ''230102-b'')
        \<and> docs' ''230102-b.md'' = Some (''###'' @ [NL] @ ''text''))"
proof -
  let ?c = "''###'' @ [NL] @ ''text''"
  let ?B = "[(''230102-b.md'', ?c)]"
  have a: "find nonblank (split_nl ?c) = Some ''###''" by code_simp
  have b: "set (strip ''###'') \<subseteq> {CHR ''#''}" by code_simp
  have g: "(''230102-b.md'', ?c) \<in> set (glob_md ?B)" by code_simp
  have d: "distinct (map fst ?B)" by simp
  have ok: "\<forall>f \<in> set (glob_md ?B). template_ok (path_stem (fst f))" by code_simp
  have st: "path_stem ''230102-b.md'' = ''230102-b''" by code_simp
  have cv: "convert_obsidian_images ?c (path_stem ''230102-b.md'') = Inr ?c" by code_simp
  have rd: "read_text ?c = ?c" by code_simp
  note inst = empty_heading_excluded[OF a b, of "''230102-b.md''"]
  from inst have t: "extract_title_from_markdown ?c = Some []" by (rule conjunct1)
  from inst[THEN conjunct2, rule_format, of ?c ?B Map.empty] g rd d ok
  obtain docs' posts x where
    "process_markdown_files ?B Map.empty = Inr (docs', posts)"
    "\<forall>p \<in> set posts. post_id p \<noteq> path_stem ''230102-b.md''"
    "convert_obsidian_images ?c (path_stem ''230102-b.md'') = Inr x"
    "docs' ''230102-b.md'' = Some x"
    by blast
  with cv st have "\<exists>docs' posts. process_markdown_files ?B Map.empty = Inr (docs', posts)
        \<and> (\<forall>p \<in> set posts. post_id p \<noteq> ''230102-b'')
        \<and> docs' ''230102-b.md'' = Some ?c"
    by (metis (no_types, lifting) sum.inject(2))
  with a b t show ?thesis by (intro conjI)
qed

subsection \<open>Rewriting of embeds\<close>

lemma re_run_until_Some:
  "re_run_until x s = Some (run, r) \<longleftrightarrow> s = run @ x # r \<and> run \<noteq> [] \<and> x \<notin> set run"
proof
  assume a: "re_run_until x s = Some (run, r)"
  let ?P = "\<lambda>c. c \<noteq> x"
  from a have run: "run = takeWhile ?P s" and ne: "run \<noteq> []" and d: "dropWhile ?P s \<noteq> []"
    and r: "r = tl (dropWhile ?P s)"
    by (auto simp: re_run_until_def Let_def split: if_splits)
  from d have "hd (dropWhile ?P s) = x" using hd_dropWhile[of ?P s] by simp
  with d r have "dropWhile ?P s = x # r" by (cases "dropWhile ?P s") auto
  then have "s = run @ x # r" unfolding run by (metis takeWhile_dropWhile_id)
  moreover have "x \<notin> set run" unfolding run using set_takeWhileD[of x ?P s] by blast
  ultimately show "s = run @ x # r \<and> run \<noteq> [] \<and> x \<notin> set run" using ne by simp
next
  assume a: "s = run @ x # r \<and> run \<noteq> [] \<and> x \<notin> set run"
  then have "takeWhile (\<lambda>c. c \<noteq> x) s = run" "dropWhile (\<lambda>c. c \<noteq> x) s = x # r"
    by (auto simp: takeWhile_tail dropWhile_append2 intro!: dropWhile_append2[THEN trans])
  with a show "re_run_until x s = Some (run, r)"
    by (simp add: re_run_until_def)
qed

lemma obsidian_match_Some:
  "obsidian_match s = Some (name, r) \<longleftrightarrow>
     s = ''![['' @ name @ '']]'' @ r \<and> name \<noteq> [] \<and> CHR '']'' \<notin> set name"
proof
  assume "obsidian_match s = Some (name, r)"
  then obtain r0 where p: "strip_prefix ''![['' s = Some r0"
    and q: "re_run_until (CHR '']'') r0 = Some (name, CHR '']'' # r)"
    by (auto simp: obsidian_match_def split: option.splits list.splits if_splits)
  from p have "s = ''![['' @ r0" by (simp add: strip_prefix_Some)
  with q show "s = ''![['' @ name @ '']]'' @ r \<and> name \<noteq> [] \<and> CHR '']'' \<notin> set name"
    by (simp add: re_run_until_Some)
next
  assume a: "s = ''![['' @ name @ '']]'' @ r \<and> name \<noteq> [] \<and> CHR '']'' \<notin> set name"
  then have p: "strip_prefix ''![['' s = Some (name @ CHR '']'' # CHR '']'' # r)"
    by (simp add: strip_prefix_Some)
  have q: "re_run_until (CHR '']'') (name @ CHR '']'' # CHR '']'' # r) = Some (name, CHR '']'' # r)"
    using a by (simp add: re_run_until_Some)
  show "obsidian_match s = Some (name, r)"
    by (simp add: obsidian_match_def p q)
qed

lemma obsidian_match_None: "obsidian_match s = None \<longleftrightarrow> \<not> embed_at s"
proof -
  have "obsidian_match s \<noteq> None \<longleftrightarrow> (\<exists>name r. obsidian_match s = Some (name, r))" by auto
  then show ?thesis unfolding obsidian_match_Some embed_at_def by blast
qed


lemma parse_template_literal:
  assumes "BSL \<notin> set u"
  shows "parse_template g (u @ v) =
           (case parse_template g v of Inl e \<Rightarrow> Inl e | Inr ps \<Rightarrow> Inr (map Literal u @ ps))"
  using assms by (induction u) (auto simp: add_piece_def split: sum.splits)

lemma parse_template_group1: "parse_template 1 ([BSL] @ ''1)'') = Inr [Group 1, Literal (CHR '')'')]"
  by code_simp

lemma obsidian_template_parse:
  assumes "BSL \<notin> set pid"
  shows "parse_template 1 (obsidian_template pid) =
           Inr (map Literal (''![](assets/'' @ pid @ ''/'') @ [Group 1, Literal (CHR '')'')])"
proof -
  have "BSL \<notin> set (''![](assets/'' @ pid @ ''/'')" using assms by (simp add: BSL_def)
  from parse_template_literal[OF this, of 1 "[BSL] @ ''1)''"] show ?thesis
    unfolding obsidian_template_def parse_template_group1 by simp
qed

lemma expand_literals: "expand_template (map Literal u @ ps) gs = u @ expand_template ps gs"
  by (induction u) auto

lemma expand_obsidian:
  "expand_template (map Literal (''![](assets/'' @ pid @ ''/'') @ [Group 1, Literal (CHR '')'')])
     [whole, name] = standard_link pid name"
  unfolding expand_literals by (simp add: standard_link_def)

lemma template_ok_no_backslash:
  assumes "BSL \<notin> set pid"
  shows "template_ok pid"
  unfolding template_ok_def by (simp only: obsidian_template_parse[OF assms] sum.case)

text \<open>The substitution with the template of a document id free of backslashes.\<close>

lemma convert_no_backslash:
  assumes "BSL \<notin> set pid"
  shows "convert_obsidian_images s pid =
           Inr (sub_obsidian (map Literal (''![](assets/'' @ pid @ ''/'') @ [Group 1, Literal (CHR '')'')]) s)"
  unfolding convert_obsidian_images_def by (simp only: obsidian_template_parse[OF assms] sum.case)

lemma sub_obsidian_match:
  assumes "obsidian_match s = Some (name, r)"
  shows "sub_obsidian t s = expand_template t [''![['' @ name @ '']]'', name] @ sub_obsidian t r"
proof (cases s)
  case Nil
  with assms show ?thesis by (simp add: obsidian_match_Some)
next
  case (Cons c cs)
  with assms show ?thesis by simp
qed

lemma sub_obsidian_skip:
  "obsidian_match (c # cs) = None \<Longrightarrow> sub_obsidian t (c # cs) = c # sub_obsidian t cs"
  by simp

lemma findall_obsidian_match:
  assumes "obsidian_match s = Some (name, r)"
  shows "findall_obsidian s = name # findall_obsidian r"
proof (cases s)
  case Nil
  with assms show ?thesis by (simp add: obsidian_match_Some)
next
  case (Cons c cs)
  with assms show ?thesis by simp
qed

lemma sub_obsidian_prefix:
  assumes "\<forall>k < length u. \<not> embed_at (drop k (u @ v))"
  shows "sub_obsidian t (u @ v) = u @ sub_obsidian t v"
  using assms
proof (induction u)
  case Nil
  then show ?case by simp
next
  case (Cons c u)
  from Cons.prems have "\<not> embed_at (drop 0 ((c # u) @ v))" by blast
  then have m: "obsidian_match (c # u @ v) = None" by (simp add: obsidian_match_None)
  have "\<forall>k < length u. \<not> embed_at (drop k (u @ v))"
  proof (intro allI impI)
    fix k assume "k < length u"
    then have "Suc k < length (c # u)" by simp
    with Cons.prems have "\<not> embed_at (drop (Suc k) ((c # u) @ v))" by blast
    then show "\<not> embed_at (drop k (u @ v))" by simp
  qed
  from Cons.IH[OF this] m show ?case by simp
qed

lemma findall_obsidian_prefix:
  assumes "\<forall>k < length u. \<not> embed_at (drop k (u @ v))"
  shows "findall_obsidian (u @ v) = findall_obsidian v"
  using assms
proof (induction u)
  case Nil
  then show ?case by simp
next
  case (Cons c u)
  from Cons.prems have "\<not> embed_at (drop 0 ((c # u) @ v))" by blast
  then have m: "obsidian_match (c # u @ v) = None" by (simp add: obsidian_match_None)
  have "\<forall>k < length u. \<not> embed_at (drop k (u @ v))"
  proof (intro allI impI)
    fix k assume "k < length u"
    then have "Suc k < length (c # u)" by simp
    with Cons.prems have "\<not> embed_at (drop (Suc k) ((c # u) @ v))" by blast
    then show "\<not> embed_at (drop k (u @ v))" by simp
  qed
  from Cons.IH[OF this] m show ?case by simp
qed

lemma not_embed_at_Nil: "\<not> embed_at []"
  by (simp add: embed_at_def)

lemma sub_obsidian_none:
  assumes "\<forall>k < length s. \<not> embed_at (drop k s)"
  shows "sub_obsidian t s = s"
  using sub_obsidian_prefix[of s "[]" t] assms by simp

lemma findall_obsidian_none:
  assumes "\<forall>k < length s. \<not> embed_at (drop k s)"
  shows "findall_obsidian s = []"
  using findall_obsidian_prefix[of s "[]"] assms by simp

lemma convert_embed:
  assumes "BSL \<notin> set pid" and "\<forall>k < length u. \<not> embed_at (drop k (u @ ''![['' @ name @ '']]'' @ v))"
    and "name \<noteq> []" and "CHR '']'' \<notin> set name"
  shows "\<exists>x. convert_obsidian_images v pid = Inr x \<and>
           convert_obsidian_images (u @ ''![['' @ name @ '']]'' @ v) pid =
             Inr (u @ standard_link pid name @ x)"
proof -
  let ?t = "map Literal (''![](assets/'' @ pid @ ''/'') @ [Group 1, Literal (CHR '')'')]"
  have m: "obsidian_match (''![['' @ name @ '']]'' @ v) = Some (name, v)"
    using assms(3,4) by (simp add: obsidian_match_Some)
  have "sub_obsidian ?t (u @ ''![['' @ name @ '']]'' @ v) =
          u @ sub_obsidian ?t (''![['' @ name @ '']]'' @ v)"
    by (rule sub_obsidian_prefix[OF assms(2)])
  also have "\<dots> = u @ standard_link pid name @ sub_obsidian ?t v"
    unfolding sub_obsidian_match[OF m] expand_obsidian ..
  finally show ?thesis
    by (simp only: convert_no_backslash[OF assms(1)]) simp
qed

lemma convert_none:
  assumes "BSL \<notin> set pid" and "\<forall>k < length s. \<not> embed_at (drop k s)"
  shows "convert_obsidian_images s pid = Inr s"
  by (simp only: convert_no_backslash[OF assms(1)] sub_obsidian_none[OF assms(2)])


lemma embed_at_startswith: "embed_at s \<Longrightarrow> startswith s ''![[''"
  by (auto simp: embed_at_def startswith_def)

lemma startswith_extend:
  assumes "x \<noteq> CHR ''!''" and "x \<noteq> CHR ''[''"
  shows "startswith (c # u @ x # v) ''![['' \<longleftrightarrow> startswith (c # u) ''![[''"
proof (cases u)
  case Nil
  with assms show ?thesis by (auto simp: startswith_def)
next
  case (Cons a u')
  with assms show ?thesis by (cases u') (auto simp: startswith_def)
qed

lemma contains_open_sep:
  assumes "x \<noteq> CHR ''!''" and "x \<noteq> CHR ''[''"
  shows "contains_open (a @ x # b) \<longleftrightarrow> contains_open a \<or> contains_open b"
proof (induction a)
  case Nil
  from assms show ?case by (simp add: startswith_def)
next
  case (Cons c a)
  then show ?case using startswith_extend[OF assms, of c a b] by simp
qed

lemma no_open_no_embed:
  assumes "\<not> contains_open u" and "x \<noteq> CHR ''!''" and "x \<noteq> CHR ''[''" and "k < length u"
  shows "\<not> embed_at (drop k (u @ x # v))"
  using assms(1,4)
proof (induction u arbitrary: k)
  case Nil
  then show ?case by simp
next
  case (Cons c u)
  show ?case
  proof (cases k)
    case 0
    from Cons.prems(1) have "\<not> startswith (c # u) ''![[''" by simp
    then have "\<not> startswith (c # u @ x # v) ''![[''"
      by (simp add: startswith_extend[OF assms(2,3)])
    then show ?thesis using 0 embed_at_startswith by auto
  next
    case (Suc j)
    with Cons.prems have "\<not> contains_open u" "j < length u" by simp_all
    from Cons.IH[OF this] Suc show ?thesis by simp
  qed
qed

lemma sub_obsidian_no_open:
  assumes "\<not> contains_open u" and "x \<noteq> CHR ''!''" and "x \<noteq> CHR ''[''"
  shows "sub_obsidian t (u @ x # v) = u @ x # sub_obsidian t v"
proof -
  have "sub_obsidian t (u @ x # v) = u @ sub_obsidian t (x # v)"
    using no_open_no_embed[OF assms] by (intro sub_obsidian_prefix) blast
  moreover have "obsidian_match (x # v) = None"
    using assms(2) embed_at_startswith[of "x # v"]
    by (auto simp: obsidian_match_None startswith_def)
  ultimately show ?thesis by simp
qed

lemma sub_obsidian_link:
  assumes "\<not> contains_open pid" and "\<not> contains_open name"
  shows "sub_obsidian t (standard_link pid name @ v) = standard_link pid name @ sub_obsidian t v"
proof -
  have sep: "contains_open (a @ CHR ''/'' # b) \<longleftrightarrow> contains_open a \<or> contains_open b" for a b
    by (rule contains_open_sep) simp_all
  have "\<not> contains_open ''![](assets''" by (simp add: startswith_def)
  with assms have "\<not> contains_open (''![](assets'' @ CHR ''/'' # pid @ CHR ''/'' # name)"
    unfolding sep by blast
  from sub_obsidian_no_open[OF this, of "CHR '')''" t v] show ?thesis
    by (simp add: standard_link_def)
qed

lemma sub_obsidian_head:
  assumes ex: "\<And>whole name. expand_template t [whole, name] = standard_link pid name"
    and "sub_obsidian t s = a # y" and "a \<noteq> CHR ''!''"
  shows "\<exists>s'. s = a # s' \<and> y = sub_obsidian t s'"
proof (cases s)
  case Nil
  with assms(2) show ?thesis by simp
next
  case (Cons c cs)
  show ?thesis
  proof (cases "obsidian_match (c # cs)")
    case None
    with assms(2) Cons show ?thesis by simp
  next
    case (Some m)
    then obtain name r where "obsidian_match (c # cs) = Some (name, r)" by (cases m) auto
    from sub_obsidian_match[OF this, of t] assms(2,3) Cons show ?thesis
      by (simp add: ex standard_link_def)
  qed
qed

lemma sub_obsidian_closing:
  assumes ex: "\<And>whole name. expand_template t [whole, name] = standard_link pid name"
    and "sub_obsidian t s = name @ '']]'' @ r" and "CHR '']'' \<notin> set name"
  shows "\<exists>name' r'. s = name' @ '']]'' @ r' \<and> CHR '']'' \<notin> set name' \<and> length name' = length name"
  using assms(2,3)
proof (induction name arbitrary: s)
  case Nil
  then have "sub_obsidian t s = CHR '']'' # CHR '']'' # r" by simp
  from sub_obsidian_head[OF ex this] obtain s' where s': "s = CHR '']'' # s'"
    "CHR '']'' # r = sub_obsidian t s'" by auto
  from sub_obsidian_head[OF ex s'(2)[symmetric]] obtain s'' where "s' = CHR '']'' # s''" by auto
  with s'(1) have "s = [] @ '']]'' @ s''" by simp
  then show ?case by (metis empty_iff list.set(1) list.size(3))
next
  case (Cons a name)
  show ?case
  proof (cases "obsidian_match s")
    case (Some m)
    then obtain n1 r1 where "obsidian_match s = Some (n1, r1)" by (cases m) auto
    from sub_obsidian_match[OF this, of t] Cons.prems
    have e: "a # name @ '']]'' @ r = standard_link pid n1 @ sub_obsidian t r1"
      by (simp add: ex)
    then have a: "a = CHR ''!''" and e1: "name @ '']]'' @ r = ''[](assets/'' @ pid @ ''/'' @ n1 @ '')'' @ sub_obsidian t r1"
      by (simp_all add: standard_link_def)
    from e1 Cons.prems(2) obtain name2 where "name = CHR ''['' # name2"
      by (cases name) auto
    with e1 Cons.prems(2) have False by (cases name2) auto
    then show ?thesis ..
  next
    case None
    from Cons.prems(1) have "s \<noteq> []" by auto
    then obtain c cs where s: "s = c # cs" by (cases s) auto
    with None Cons.prems(1) have c: "c = a" and "sub_obsidian t cs = name @ '']]'' @ r" by simp_all
    from Cons.IH[OF this(2)] Cons.prems(2) obtain name' r' where
      "cs = name' @ '']]'' @ r'" "CHR '']'' \<notin> set name'" "length name' = length name" by auto
    with s c Cons.prems(2) have "s = (a # name') @ '']]'' @ r' \<and> CHR '']'' \<notin> set (a # name')
        \<and> length (a # name') = length (a # name)" by simp
    then show ?thesis by blast
  qed
qed

lemma sub_obsidian_no_new_match:
  assumes ex: "\<And>whole name. expand_template t [whole, name] = standard_link pid name"
    and "obsidian_match (c # cs) = None"
  shows "obsidian_match (c # sub_obsidian t cs) = None"
proof (rule ccontr)
  assume "obsidian_match (c # sub_obsidian t cs) \<noteq> None"
  then obtain name r where m: "c # sub_obsidian t cs = ''![['' @ name @ '']]'' @ r"
    and n: "name \<noteq> []" "CHR '']'' \<notin> set name"
    unfolding obsidian_match_None embed_at_def by auto
  from m have c: "c = CHR ''!''" and 1: "sub_obsidian t cs = CHR ''['' # CHR ''['' # name @ '']]'' @ r"
    by simp_all
  from sub_obsidian_head[OF ex 1] obtain s1 where s1: "cs = CHR ''['' # s1"
    "CHR ''['' # name @ '']]'' @ r = sub_obsidian t s1" by auto
  from sub_obsidian_head[OF ex s1(2)[symmetric]] obtain s2 where s2: "s1 = CHR ''['' # s2"
    "name @ '']]'' @ r = sub_obsidian t s2" by auto
  from sub_obsidian_closing[OF ex s2(2)[symmetric] n(2)] obtain name' r' where
    "s2 = name' @ '']]'' @ r'" "CHR '']'' \<notin> set name'" "length name' = length name" by auto
  with n(1) c s1(1) s2(1) have "c # cs = ''![['' @ name' @ '']]'' @ r' \<and> name' \<noteq> [] \<and> CHR '']'' \<notin> set name'"
    by auto
  then have "embed_at (c # cs)" unfolding embed_at_def by blast
  with assms(2) show False by (simp add: obsidian_match_None)
qed

lemma sub_obsidian_idem:
  assumes ex: "\<And>whole name. expand_template t [whole, name] = standard_link pid name"
    and "\<not> contains_open pid" and "\<forall>n \<in> set (findall_obsidian s). \<not> contains_open n"
  shows "sub_obsidian t (sub_obsidian t s) = sub_obsidian t s"
  using assms(3)
proof (induction s rule: findall_obsidian.induct)
  case 1
  then show ?case by simp
next
  case (2 c cs)
  show ?case
  proof (cases "obsidian_match (c # cs)")
    case None
    with 2 have ih: "sub_obsidian t (sub_obsidian t cs) = sub_obsidian t cs" by simp
    have "sub_obsidian t (c # cs) = c # sub_obsidian t cs"
      using None by (rule sub_obsidian_skip)
    moreover have "sub_obsidian t (c # sub_obsidian t cs) = c # sub_obsidian t (sub_obsidian t cs)"
      using sub_obsidian_no_new_match[OF ex None] by (rule sub_obsidian_skip)
    ultimately show ?thesis by (simp only: ih)
  next
    case (Some m)
    then obtain name r where m: "obsidian_match (c # cs) = Some (name, r)" by (cases m) auto
    with 2 have ih: "sub_obsidian t (sub_obsidian t r) = sub_obsidian t r"
      and nm: "\<not> contains_open name" by simp_all
    have "sub_obsidian t (c # cs) = standard_link pid name @ sub_obsidian t r"
      using m by (simp add: ex)
    then show ?thesis
      by (simp only: sub_obsidian_link[OF assms(2) nm] ih)
  qed
qed


text \<open>
  Claim C2, at a document id with a backslash. The document id is pasted into the
  replacement template of \<^verbatim>\<open>re.sub\<close> without escaping, so a backslash in it is read as a
  template escape: with the id \<^verbatim>\<open>a\n\<close> (a, backslash, n) the embed \<^verbatim>\<open>![[pic.jpg]]\<close> becomes a
  link whose path has a line feed in place of backslash and n, with the id \<^verbatim>\<open>a\d\<close> the call
  raises \<^verbatim>\<open>re.error\<close>, even on a text without any embed. With the id \<^verbatim>\<open>230615-post\<close> the
  result is the one the claim gives.
\<close>

theorem convert_backslash_id:
  "convert_obsidian_images ''![[pic.jpg]]'' (''a'' @ [BSL] @ ''n'') =
     Inr (''![](assets/a'' @ [NL] @ ''/pic.jpg)'')
   \<and> convert_obsidian_images ''![[pic.jpg]]'' (''a'' @ [BSL] @ ''d'') = Inl Re_error
   \<and> convert_obsidian_images ''no image here'' (''a'' @ [BSL] @ ''d'') = Inl Re_error
   \<and> convert_obsidian_images ''![[pic.jpg]]'' ''230615-post'' =
       Inr ''![](assets/230615-post/pic.jpg)''"
  by code_simp

text \<open>
  Claim C3, as stated, fails: an embed whose name contains \<^verbatim>\<open>![[\<close> leaves, after one pass, a
  new embed that a second pass rewrites again.
\<close>

theorem convert_twice_counterexample:
  "convert_obsidian_images ''![[![[a]]]]'' ''p'' = Inr ''![](assets/p/![[a)]]''
   \<and> convert_obsidian_images ''![](assets/p/![[a)]]'' ''p'' = Inr ''![](assets/p/![](assets/p/a))''
   \<and> ''![](assets/p/![](assets/p/a))'' \<noteq> ''![](assets/p/![[a)]]''"
  by code_simp

text \<open>
  Claim C3, amended. For a document id without a backslash: on a text in which no embed
  occurs the normalization is the identity; and when neither the document id nor the name
  of any embed of the text contains \<^verbatim>\<open>![[\<close>, normalizing a second time gives the result
  of the first time.
\<close>

theorem convert_idempotent:
  assumes "BSL \<notin> set pid"
  shows "((\<forall>k < length s. \<not> embed_at (drop k s)) \<longrightarrow> convert_obsidian_images s pid = Inr s)
     \<and> (\<not> contains_open pid \<and> (\<forall>n \<in> set (findall_obsidian s). \<not> contains_open n) \<longrightarrow>
          (\<exists>x. convert_obsidian_images s pid = Inr x \<and> convert_obsidian_images x pid = Inr x))"
proof -
  let ?t = "map Literal (''![](assets/'' @ pid @ ''/'') @ [Group 1, Literal (CHR '')'')]"
  have c: "convert_obsidian_images x pid = Inr (sub_obsidian ?t x)" for x
    by (rule convert_no_backslash[OF assms])
  have "sub_obsidian ?t (sub_obsidian ?t s) = sub_obsidian ?t s"
    if "\<not> contains_open pid" "\<forall>n \<in> set (findall_obsidian s). \<not> contains_open n"
    using expand_obsidian that by (rule sub_obsidian_idem)
  then show ?thesis
    using convert_none[OF assms] by (simp only: c) blast
qed

theorem convert_idempotent_witness:
  "BSL \<notin> set ''230615-post''
   \<and> \<not> (\<exists>k < length ''see ![alt](assets/c.png)''. embed_at (drop k ''see ![alt](assets/c.png)''))
   \<and> convert_obsidian_images ''see ![alt](assets/c.png)'' ''230615-post'' =
       Inr ''see ![alt](assets/c.png)''
   \<and> \<not> contains_open ''230615-post''
   \<and> \<not> (\<exists>n \<in> set (findall_obsidian ''x ![[pic.jpg]] y''). contains_open n)
   \<and> (\<exists>x. convert_obsidian_images ''x ![[pic.jpg]] y'' ''230615-post'' = Inr x
          \<and> convert_obsidian_images x ''230615-post'' = Inr x)"
proof -
  let ?s1 = "''see ![alt](assets/c.png)''" and ?s2 = "''x ![[pic.jpg]] y''"
  have a: "BSL \<notin> set ''230615-post''" by code_simp
  have b: "\<forall>k < length ?s1. \<not> embed_at (drop k ?s1)"
  proof (intro allI impI)
    fix k assume "k < length ?s1"
    have "\<forall>k \<in> set [0..<length ?s1]. obsidian_match (drop k ?s1) = None" by code_simp
    with \<open>k < length ?s1\<close> show "\<not> embed_at (drop k ?s1)"
      by (simp only: obsidian_match_None[symmetric]) (metis atLeastLessThan_iff set_upt zero_le)
  qed
  have c: "\<not> contains_open ''230615-post''" by code_simp
  have d: "\<forall>n \<in> set (findall_obsidian ?s2). \<not> contains_open n" by code_simp
  note inst = convert_idempotent[OF a]
  from inst[of ?s1, THEN conjunct1, THEN mp, OF b]
  have 1: "convert_obsidian_images ?s1 ''230615-post'' = Inr ?s1" .
  from inst[of ?s2, THEN conjunct2, THEN mp, OF conjI[OF c d]]
  have 2: "\<exists>x. convert_obsidian_images ?s2 ''230615-post'' = Inr x
          \<and> convert_obsidian_images x ''230615-post'' = Inr x" .
  from b have b': "\<not> (\<exists>k < length ?s1. embed_at (drop k ?s1))" by blast
  from d have d': "\<not> (\<exists>n \<in> set (findall_obsidian ?s2). contains_open n)" by blast
  from a b' 1 c d' 2 show ?thesis by (intro conjI)
qed

subsection \<open>Image references\<close>

lemma startswith_prefix_of_append:
  assumes "startswith (p @ x # r) q" and "x \<notin> set q"
  shows "startswith p q"
proof -
  from assms(1) obtain z where z: "p @ x # r = q @ z" unfolding startswith_append by blast
  then obtain us where "(p = q @ us \<and> us @ x # r = z) \<or> (p @ us = q \<and> x # r = us @ z)"
    unfolding append_eq_append_conv2 by blast
  then show ?thesis
  proof
    assume "p = q @ us \<and> us @ x # r = z"
    then show ?thesis unfolding startswith_append by blast
  next
    assume a: "p @ us = q \<and> x # r = us @ z"
    show ?thesis
    proof (cases us)
      case Nil
      with a show ?thesis unfolding startswith_append by auto
    next
      case (Cons u us')
      with a have "x \<in> set q" by auto
      with assms(2) show ?thesis by simp
    qed
  qed
qed

lemma startswith_appendI: "startswith p q \<Longrightarrow> startswith (p @ r) q"
  unfolding startswith_append by auto

lemma standard_tail_path:
  assumes "path \<noteq> []" and "CHR '')'' \<notin> set path"
  shows "standard_tail (''](''  @ path @ '')'' @ r) = Some (strip_assets path, r)"
proof -
  let ?r0 = "path @ CHR '')'' # r"
  have p: "strip_prefix ''](''  (''](''  @ path @ '')'' @ r) = Some ?r0"
    by (simp add: strip_prefix_Some)
  have whole: "re_run_until (CHR '')'') ?r0 = Some (path, r)"
    using assms by (simp add: re_run_until_Some)
  show ?thesis
  proof (cases "startswith path ''assets/''")
    case False
    then have "\<not> startswith ?r0 ''assets/''"
      using startswith_prefix_of_append[of path "CHR '')''" r "''assets/''"] by auto
    then have "strip_prefix ''assets/'' ?r0 = None" by (simp add: strip_prefix_def)
    with p whole False show ?thesis
      by (simp add: standard_tail_def strip_assets_def)
  next
    case True
    then obtain p1 where p1: "path = ''assets/'' @ p1" unfolding startswith_append by blast
    then have q: "strip_prefix ''assets/'' ?r0 = Some (p1 @ CHR '')'' # r)"
      by (simp add: strip_prefix_Some)
    show ?thesis
    proof (cases "p1 = []")
      case True
      then have "re_run_until (CHR '')'') (p1 @ CHR '')'' # r) = None"
        by (simp add: re_run_until_def)
      with p q whole True p1 show ?thesis
        by (simp add: standard_tail_def strip_assets_def)
    next
      case False
      then have "re_run_until (CHR '')'') (p1 @ CHR '')'' # r) = Some (p1, r)"
        using assms(2) p1 by (simp add: re_run_until_Some)
      moreover have "strip_assets path = p1"
        using False p1 by (simp add: strip_assets_def startswith_def)
      ultimately show ?thesis using p q
        by (simp add: standard_tail_def)
    qed
  qed
qed

lemma standard_tail_SomeD:
  assumes "standard_tail s = Some (n, r)"
  shows "\<exists>path. s = ''](''  @ path @ '')'' @ r \<and> path \<noteq> [] \<and> CHR '')'' \<notin> set path
           \<and> n = strip_assets path"
proof -
  from assms obtain r0 where p: "strip_prefix ''](''  s = Some r0"
    by (auto simp: standard_tail_def split: option.splits)
  then have s: "s = ''](''  @ r0" by (simp add: strip_prefix_Some)
  have "\<exists>path r'. re_run_until (CHR '')'') r0 = Some (path, r')"
  proof (cases "strip_prefix ''assets/'' r0")
    case None
    with assms p show ?thesis by (simp add: standard_tail_def)
  next
    case (Some x2)
    then have r0: "r0 = ''assets/'' @ x2" by (simp add: strip_prefix_Some)
    show ?thesis
    proof (cases "re_run_until (CHR '')'') x2")
      case None
      with assms p Some show ?thesis by (simp add: standard_tail_def)
    next
      case (Some m)
      then obtain a b where "re_run_until (CHR '')'') x2 = Some (a, b)" by (cases m) auto
      then have "x2 = a @ CHR '')'' # b" "CHR '')'' \<notin> set a" by (simp_all add: re_run_until_Some)
      then have "re_run_until (CHR '')'') r0 = Some (''assets/'' @ a, b)"
        unfolding r0 by (simp add: re_run_until_Some)
      then show ?thesis by blast
    qed
  qed
  then obtain path r' where w: "re_run_until (CHR '')'') r0 = Some (path, r')" by blast
  then have r0: "r0 = path @ CHR '')'' # r'" and ne: "path \<noteq> []" and np: "CHR '')'' \<notin> set path"
    by (simp_all add: re_run_until_Some)
  from standard_tail_path[OF ne np, of r'] s r0 assms
  have "n = strip_assets path" "r = r'" by simp_all
  with s r0 ne np show ?thesis by auto
qed

lemma standard_lazy_SomeD:
  assumes "standard_lazy s = Some (n, r)"
  shows "\<exists>alt rest. s = alt @ rest \<and> NL \<notin> set alt \<and> standard_tail rest = Some (n, r)"
  using assms
proof (induction s)
  case Nil
  then show ?case by simp
next
  case (Cons c cs)
  show ?case
  proof (cases "standard_tail (c # cs)")
    case (Some m)
    with Cons.prems have "standard_tail (c # cs) = Some (n, r)" by simp
    then have "c # cs = [] @ (c # cs) \<and> NL \<notin> set [] \<and> standard_tail (c # cs) = Some (n, r)" by simp
    then show ?thesis by blast
  next
    case None
    with Cons.prems have c: "c \<noteq> NL" and "standard_lazy cs = Some (n, r)"
      by (auto split: if_splits)
    from Cons.IH[OF this(2)] obtain alt rest where
      "cs = alt @ rest" "NL \<notin> set alt" "standard_tail rest = Some (n, r)" by blast
    with c have "c # cs = (c # alt) @ rest \<and> NL \<notin> set (c # alt) \<and> standard_tail rest = Some (n, r)"
      by simp
    then show ?thesis by blast
  qed
qed

lemma standard_lazy_complete:
  assumes "NL \<notin> set alt" and "standard_tail rest \<noteq> None"
  shows "standard_lazy (alt @ rest) \<noteq> None"
  using assms(1)
proof (induction alt)
  case Nil
  with assms(2) show ?case by (cases rest) auto
next
  case (Cons c alt)
  then show ?case by (auto split: option.splits)
qed

lemma standard_lazy_first:
  assumes "NL \<notin> set alt" and "\<forall>k < length alt. standard_tail (drop k (alt @ rest)) = None"
  shows "standard_lazy (alt @ rest) = standard_lazy rest"
  using assms
proof (induction alt)
  case Nil
  then show ?case by simp
next
  case (Cons c alt)
  from Cons.prems(2) have "standard_tail (drop 0 ((c # alt) @ rest)) = None" by blast
  then have t: "standard_tail (c # alt @ rest) = None" by simp
  have "\<forall>k < length alt. standard_tail (drop k (alt @ rest)) = None"
  proof (intro allI impI)
    fix k assume "k < length alt"
    then have "Suc k < length (c # alt)" by simp
    with Cons.prems(2) have "standard_tail (drop (Suc k) ((c # alt) @ rest)) = None" by blast
    then show "standard_tail (drop k (alt @ rest)) = None" by simp
  qed
  moreover from Cons.prems(1) have c: "c \<noteq> NL" and "NL \<notin> set alt" by auto
  ultimately have "standard_lazy (alt @ rest) = standard_lazy rest" by (intro Cons.IH)
  with t c show ?case by simp
qed

lemma standard_lazy_tail:
  assumes "standard_tail rest = Some m"
  shows "standard_lazy rest = Some m"
  using assms by (cases rest) auto

lemma standard_match_None: "standard_match s = None \<longleftrightarrow> \<not> standard_at s"
proof
  assume n: "standard_match s = None"
  show "\<not> standard_at s"
  proof
    assume "standard_at s"
    then obtain alt path r where s: "s = ''!['' @ alt @ ''](''  @ path @ '')'' @ r"
      and a: "NL \<notin> set alt" "path \<noteq> []" "CHR '')'' \<notin> set path"
      unfolding standard_at_def by blast
    have "standard_tail (''](''  @ path @ '')'' @ r) \<noteq> None"
      using standard_tail_path[OF a(2,3), of r] by simp
    from standard_lazy_complete[OF a(1) this]
    have "standard_match s \<noteq> None"
      unfolding s standard_match_def by (simp add: strip_prefix_def startswith_def)
    with n show False by simp
  qed
next
  assume n: "\<not> standard_at s"
  show "standard_match s = None"
  proof (rule ccontr)
    assume "standard_match s \<noteq> None"
    then obtain m r where m: "standard_match s = Some (m, r)" by auto
    then obtain r0 where s: "s = ''!['' @ r0" and l: "standard_lazy r0 = Some (m, r)"
      by (auto simp: standard_match_def strip_prefix_Some split: option.splits)
    from standard_lazy_SomeD[OF l] obtain alt rest where
      r0: "r0 = alt @ rest" "NL \<notin> set alt" "standard_tail rest = Some (m, r)" by blast
    from standard_tail_SomeD[OF r0(3)] obtain path where
      "rest = ''](''  @ path @ '')'' @ r" "path \<noteq> []" "CHR '')'' \<notin> set path" by blast
    with s r0 have "standard_at s" unfolding standard_at_def by blast
    with n show False by simp
  qed
qed

lemma standard_match_link:
  assumes "NL \<notin> set alt" and "CHR '']'' \<notin> set alt" and "path \<noteq> []" and "CHR '')'' \<notin> set path"
  shows "standard_match (''!['' @ alt @ ''](''  @ path @ '')'' @ r) = Some (strip_assets path, r)"
proof -
  let ?rest = "''](''  @ path @ '')'' @ r"
  have "standard_tail (drop k (alt @ ?rest)) = None" if "k < length alt" for k
  proof -
    from that have "drop k (alt @ ?rest) = (alt ! k) # drop (Suc k) alt @ ?rest"
      by (simp add: Cons_nth_drop_Suc)
    moreover from that assms(2) have "alt ! k \<noteq> CHR '']''" by (metis nth_mem)
    ultimately show ?thesis
      by (simp add: standard_tail_def strip_prefix_def startswith_def)
  qed
  then have "standard_lazy (alt @ ?rest) = standard_lazy ?rest"
    using assms(1) by (intro standard_lazy_first) blast+
  also have "\<dots> = Some (strip_assets path, r)"
    using standard_tail_path[OF assms(3,4), of r] by (rule standard_lazy_tail)
  finally show ?thesis
    by (simp add: standard_match_def strip_prefix_def startswith_def)
qed

lemma findall_standard_match:
  assumes "standard_match s = Some (name, r)"
  shows "findall_standard s = name # findall_standard r"
proof (cases s)
  case Nil
  with assms show ?thesis by (simp add: standard_match_def strip_prefix_def startswith_def)
next
  case (Cons c cs)
  with assms show ?thesis by simp
qed

lemma findall_standard_prefix:
  assumes "\<forall>k < length u. \<not> standard_at (drop k (u @ v))"
  shows "findall_standard (u @ v) = findall_standard v"
  using assms
proof (induction u)
  case Nil
  then show ?case by simp
next
  case (Cons c u)
  from Cons.prems have "\<not> standard_at (drop 0 ((c # u) @ v))" by blast
  then have m: "standard_match (c # u @ v) = None" by (simp add: standard_match_None)
  have "\<forall>k < length u. \<not> standard_at (drop k (u @ v))"
  proof (intro allI impI)
    fix k assume "k < length u"
    then have "Suc k < length (c # u)" by simp
    with Cons.prems have "\<not> standard_at (drop (Suc k) ((c # u) @ v))" by blast
    then show "\<not> standard_at (drop k (u @ v))" by simp
  qed
  from Cons.IH[OF this] m show ?case by simp
qed

lemma findall_standard_none:
  assumes "\<forall>k < length s. \<not> standard_at (drop k s)"
  shows "findall_standard s = []"
  using findall_standard_prefix[of s "[]"] assms by simp


lemma findall_obsidian_embed:
  assumes "\<forall>k < length u. \<not> embed_at (drop k (u @ ''![['' @ name @ '']]'' @ v))"
    and "name \<noteq> []" and "CHR '']'' \<notin> set name"
  shows "findall_obsidian (u @ ''![['' @ name @ '']]'' @ v) = name # findall_obsidian v"
proof -
  have "obsidian_match (''![['' @ name @ '']]'' @ v) = Some (name, v)"
    using assms(2,3) by (simp add: obsidian_match_Some)
  from findall_obsidian_match[OF this] findall_obsidian_prefix[OF assms(1)]
  show ?thesis by simp
qed

lemma findall_standard_link:
  assumes "\<forall>k < length u. \<not> standard_at (drop k (u @ ''!['' @ alt @ ''](''  @ path @ '')'' @ v))"
    and "NL \<notin> set alt" and "CHR '']'' \<notin> set alt" and "path \<noteq> []" and "CHR '')'' \<notin> set path"
  shows "findall_standard (u @ ''!['' @ alt @ ''](''  @ path @ '')'' @ v) =
           strip_assets path # findall_standard v"
  using findall_standard_match[OF standard_match_link[OF assms(2-5), of v]]
    findall_standard_prefix[OF assms(1)]
  by simp

lemma standard_tail_None: "standard_tail s = None \<longleftrightarrow> \<not> link_tail_at s"
proof
  assume n: "standard_tail s = None"
  show "\<not> link_tail_at s"
  proof
    assume "link_tail_at s"
    then obtain path r where "s = ''](''  @ path @ '')'' @ r" "path \<noteq> []" "CHR '')'' \<notin> set path"
      unfolding link_tail_at_def by blast
    with standard_tail_path[of path r] n show False by simp
  qed
next
  assume n: "\<not> link_tail_at s"
  show "standard_tail s = None"
  proof (rule ccontr)
    assume "standard_tail s \<noteq> None"
    then obtain m r where "standard_tail s = Some (m, r)" by auto
    from standard_tail_SomeD[OF this] n show False unfolding link_tail_at_def by blast
  qed
qed

lemma standard_lazy_shortest:
  assumes "standard_lazy s = Some (n, r)"
  shows "\<exists>alt rest. s = alt @ rest \<and> NL \<notin> set alt \<and> standard_tail rest = Some (n, r)
           \<and> (\<forall>k < length alt. standard_tail (drop k s) = None)"
  using assms
proof (induction s)
  case Nil
  then have t: "standard_tail [] = Some (n, r)" by simp
  show ?case
    by (rule exI[of _ "[]"], rule exI[of _ "[]"]) (simp add: t)
next
  case (Cons c cs)
  show ?case
  proof (cases "standard_tail (c # cs)")
    case (Some m)
    with Cons.prems have t: "standard_tail (c # cs) = Some (n, r)" by simp
    show ?thesis
      by (rule exI[of _ "[]"], rule exI[of _ "c # cs"]) (simp add: t)
  next
    case None
    with Cons.prems have c: "c \<noteq> NL" and "standard_lazy cs = Some (n, r)"
      by (auto split: if_splits)
    from Cons.IH[OF this(2)] obtain alt rest where
      a: "cs = alt @ rest" "NL \<notin> set alt" "standard_tail rest = Some (n, r)"
      "\<forall>k < length alt. standard_tail (drop k cs) = None" by blast
    have "\<forall>k < length (c # alt). standard_tail (drop k (c # cs)) = None"
    proof (intro allI impI)
      fix k assume "k < length (c # alt)"
      then show "standard_tail (drop k (c # cs)) = None"
        using a(4) None by (cases k) auto
    qed
    with c a(1-3) have "c # cs = (c # alt) @ rest \<and> NL \<notin> set (c # alt)
        \<and> standard_tail rest = Some (n, r)
        \<and> (\<forall>k < length (c # alt). standard_tail (drop k (c # cs)) = None)"
      by simp
    then show ?thesis by (intro exI[of _ "c # alt"] exI[of _ rest])
  qed
qed

lemma standard_match_shortest:
  assumes "NL \<notin> set alt"
    and "\<forall>k < length alt. \<not> link_tail_at (drop k (alt @ ''](''  @ path @ '')'' @ r))"
    and "path \<noteq> []" and "CHR '')'' \<notin> set path"
  shows "standard_match (''!['' @ alt @ ''](''  @ path @ '')'' @ r) = Some (strip_assets path, r)"
proof -
  let ?rest = "''](''  @ path @ '')'' @ r"
  have "\<forall>k < length alt. standard_tail (drop k (alt @ ?rest)) = None"
    using assms(2) by (simp only: standard_tail_None) 
  with assms(1) have "standard_lazy (alt @ ?rest) = standard_lazy ?rest"
    by (rule standard_lazy_first)
  also have "\<dots> = Some (strip_assets path, r)"
    using standard_tail_path[OF assms(3,4), of r] by (rule standard_lazy_tail)
  finally show ?thesis
    by (simp add: standard_match_def strip_prefix_def startswith_def)
qed

lemma standard_match_SomeD:
  assumes "standard_match s = Some (n, r)"
  shows "\<exists>alt path. s = ''!['' @ alt @ ''](''  @ path @ '')'' @ r \<and> NL \<notin> set alt
           \<and> (\<forall>k < length alt. \<not> link_tail_at (drop k (alt @ ''](''  @ path @ '')'' @ r)))
           \<and> path \<noteq> [] \<and> CHR '')'' \<notin> set path \<and> n = strip_assets path"
proof -
  from assms obtain r0 where s: "s = ''!['' @ r0" and l: "standard_lazy r0 = Some (n, r)"
    by (auto simp: standard_match_def strip_prefix_Some split: option.splits)
  from standard_lazy_shortest[OF l] obtain alt rest where
    r0: "r0 = alt @ rest" "NL \<notin> set alt" "standard_tail rest = Some (n, r)"
    "\<forall>k < length alt. standard_tail (drop k r0) = None" by blast
  from standard_tail_SomeD[OF r0(3)] obtain path where
    p: "rest = ''](''  @ path @ '')'' @ r" "path \<noteq> []" "CHR '')'' \<notin> set path"
    "n = strip_assets path" by blast
  from r0(4) have "\<forall>k < length alt. \<not> link_tail_at (drop k (alt @ ''](''  @ path @ '')'' @ r))"
    unfolding r0(1) p(1) by (simp only: standard_tail_None)
  with s r0(1,2) p show ?thesis by blast
qed

text \<open>Every text either has no occurrence, or splits at its leftmost occurrence.\<close>

lemma findall_obsidian_cases:
  "((\<forall>k < length s. \<not> embed_at (drop k s)) \<and> findall_obsidian s = [])
   \<or> (\<exists>u name v. s = u @ ''![['' @ name @ '']]'' @ v
         \<and> (\<forall>k < length u. \<not> embed_at (drop k s))
         \<and> name \<noteq> [] \<and> CHR '']'' \<notin> set name
         \<and> findall_obsidian s = name # findall_obsidian v)"
proof (induction s)
  case Nil
  then show ?case by simp
next
  case (Cons c cs)
  show ?case
  proof (cases "obsidian_match (c # cs)")
    case (Some m)
    then obtain name r where m: "obsidian_match (c # cs) = Some (name, r)" by (cases m) auto
    then have "c # cs = [] @ ''![['' @ name @ '']]'' @ r \<and> name \<noteq> [] \<and> CHR '']'' \<notin> set name"
      by (simp add: obsidian_match_Some)
    moreover have "findall_obsidian (c # cs) = name # findall_obsidian r" using m by simp
    moreover have "\<forall>k < length ([]::string). \<not> embed_at (drop k (c # cs))" by simp
    ultimately show ?thesis by blast
  next
    case None
    then have here: "\<not> embed_at (c # cs)" by (simp add: obsidian_match_None)
    from None have step: "findall_obsidian (c # cs) = findall_obsidian cs" by simp
    from Cons.IH show ?thesis
    proof (elim disjE exE conjE)
      assume a: "\<forall>k < length cs. \<not> embed_at (drop k cs)" "findall_obsidian cs = []"
      have "\<forall>k < length (c # cs). \<not> embed_at (drop k (c # cs))"
      proof (intro allI impI)
        fix k assume "k < length (c # cs)"
        then show "\<not> embed_at (drop k (c # cs))" using a(1) here by (cases k) auto
      qed
      with a(2) step show ?thesis by simp
    next
      fix u name v
      assume a: "cs = u @ ''![['' @ name @ '']]'' @ v" "\<forall>k < length u. \<not> embed_at (drop k cs)"
        "name \<noteq> []" "CHR '']'' \<notin> set name" "findall_obsidian cs = name # findall_obsidian v"
      have "\<forall>k < length (c # u). \<not> embed_at (drop k (c # cs))"
      proof (intro allI impI)
        fix k assume "k < length (c # u)"
        then show "\<not> embed_at (drop k (c # cs))" using a(2) here by (cases k) auto
      qed
      moreover have "c # cs = (c # u) @ ''![['' @ name @ '']]'' @ v" using a(1) by simp
      moreover have "findall_obsidian (c # cs) = name # findall_obsidian v" using a(5) step by simp
      ultimately show ?thesis using a(3,4) by blast
    qed
  qed
qed

lemma findall_standard_cases:
  "((\<forall>k < length s. \<not> standard_at (drop k s)) \<and> findall_standard s = [])
   \<or> (\<exists>u alt path v. s = u @ ''!['' @ alt @ ''](''  @ path @ '')'' @ v
         \<and> (\<forall>k < length u. \<not> standard_at (drop k s))
         \<and> NL \<notin> set alt
         \<and> (\<forall>k < length alt. \<not> link_tail_at (drop k (alt @ ''](''  @ path @ '')'' @ v)))
         \<and> path \<noteq> [] \<and> CHR '')'' \<notin> set path
         \<and> findall_standard s = strip_assets path # findall_standard v)"
proof (induction s)
  case Nil
  then show ?case by simp
next
  case (Cons c cs)
  show ?case
  proof (cases "standard_match (c # cs)")
    case (Some m)
    then obtain n r where m: "standard_match (c # cs) = Some (n, r)" by (cases m) auto
    from standard_match_SomeD[OF m] obtain alt path where
      d: "c # cs = [] @ ''!['' @ alt @ ''](''  @ path @ '')'' @ r" "NL \<notin> set alt"
      "\<forall>k < length alt. \<not> link_tail_at (drop k (alt @ ''](''  @ path @ '')'' @ r))"
      "path \<noteq> []" "CHR '')'' \<notin> set path" "n = strip_assets path" by auto
    moreover have "findall_standard (c # cs) = strip_assets path # findall_standard r"
      using m d(6) by simp
    moreover have "\<forall>k < length ([]::string). \<not> standard_at (drop k (c # cs))" by simp
    ultimately show ?thesis by blast
  next
    case None
    then have here: "\<not> standard_at (c # cs)" by (simp add: standard_match_None)
    from None have step: "findall_standard (c # cs) = findall_standard cs" by simp
    from Cons.IH show ?thesis
    proof (elim disjE exE conjE)
      assume a: "\<forall>k < length cs. \<not> standard_at (drop k cs)" "findall_standard cs = []"
      have "\<forall>k < length (c # cs). \<not> standard_at (drop k (c # cs))"
      proof (intro allI impI)
        fix k assume "k < length (c # cs)"
        then show "\<not> standard_at (drop k (c # cs))" using a(1) here by (cases k) auto
      qed
      with a(2) step show ?thesis by simp
    next
      fix u alt path v
      assume a: "cs = u @ ''!['' @ alt @ ''](''  @ path @ '')'' @ v"
        "\<forall>k < length u. \<not> standard_at (drop k cs)" "NL \<notin> set alt"
        "\<forall>k < length alt. \<not> link_tail_at (drop k (alt @ ''](''  @ path @ '')'' @ v))"
        "path \<noteq> []" "CHR '')'' \<notin> set path"
        "findall_standard cs = strip_assets path # findall_standard v"
      have "\<forall>k < length (c # u). \<not> standard_at (drop k (c # cs))"
      proof (intro allI impI)
        fix k assume "k < length (c # u)"
        then show "\<not> standard_at (drop k (c # cs))" using a(2) here by (cases k) auto
      qed
      moreover have "c # cs = (c # u) @ ''!['' @ alt @ ''](''  @ path @ '')'' @ v" using a(1) by simp
      moreover have "findall_standard (c # cs) = strip_assets path # findall_standard v"
        using a(7) step by simp
      ultimately show ?thesis using a(3-6) by blast
    qed
  qed
qed

lemma findall_standard_shortest:
  assumes "\<forall>k < length u. \<not> standard_at (drop k (u @ ''!['' @ alt @ ''](''  @ path @ '')'' @ v))"
    and "NL \<notin> set alt"
    and "\<forall>k < length alt. \<not> link_tail_at (drop k (alt @ ''](''  @ path @ '')'' @ v))"
    and "path \<noteq> []" and "CHR '')'' \<notin> set path"
  shows "findall_standard (u @ ''!['' @ alt @ ''](''  @ path @ '')'' @ v) =
           strip_assets path # findall_standard v"
  using findall_standard_match[OF standard_match_shortest[OF assms(2-5)]]
    findall_standard_prefix[OF assms(1)]
  by simp


text \<open>
  Claim C1, as stated, fails for a standard link whose path is \<^verbatim>\<open>assets/\<close> alone: the pattern
  gives the optional \<^verbatim>\<open>assets/\<close> back to the group, since the group must not be empty, and the
  name is the whole path, not the path without its leading \<^verbatim>\<open>assets/\<close>.
\<close>

theorem extract_images_assets_counterexample:
  "extract_images_from_markdown ''![b](assets/)'' = [''assets/'']
   \<and> [''assets/''] \<noteq> [drop (length ''assets/'') ''assets/'']"
  by code_simp

text \<open>
  Claim C1, amended. The images of a text are the names of its embeds, in the order of the
  text, followed by the names of its standard links, in the order of the text; the groups
  are not interleaved and a name that occurs twice is listed twice. Either scan is
  determined for every text: a text without occurrence gives no name, and any other text
  splits at its leftmost occurrence, which gives the first name, the scan going on behind
  it. A standard link is \<^verbatim>\<open>![ALT](PATH)\<close> with the alternative text on one line and as short
  as possible (it may contain brackets), the path not empty and ending at the first closing
  parenthesis; its name is the path without one leading \<^verbatim>\<open>assets/\<close>, except that the path
  \<^verbatim>\<open>assets/\<close> alone is kept whole. \<^verbatim>\<open>![[a.png]] and ![b](assets/c.png)\<close> gives \<^verbatim>\<open>a.png\<close>,
  \<^verbatim>\<open>c.png\<close>.
\<close>

theorem extract_images_scans:
  "extract_images_from_markdown content = findall_obsidian content @ findall_standard content
   \<and> (\<forall>u name v.
        (\<forall>k < length u. \<not> embed_at (drop k (u @ ''![['' @ name @ '']]'' @ v)))
        \<and> name \<noteq> [] \<and> CHR '']'' \<notin> set name \<longrightarrow>
        findall_obsidian (u @ ''![['' @ name @ '']]'' @ v) = name # findall_obsidian v)
   \<and> ((\<forall>k < length content. \<not> embed_at (drop k content)) \<longrightarrow> findall_obsidian content = [])
   \<and> (((\<forall>k < length content. \<not> embed_at (drop k content)) \<and> findall_obsidian content = [])
        \<or> (\<exists>u name v. content = u @ ''![['' @ name @ '']]'' @ v
              \<and> (\<forall>k < length u. \<not> embed_at (drop k content))
              \<and> name \<noteq> [] \<and> CHR '']'' \<notin> set name
              \<and> findall_obsidian content = name # findall_obsidian v))
   \<and> (\<forall>u alt path v.
        (\<forall>k < length u. \<not> standard_at (drop k (u @ ''!['' @ alt @ ''](''  @ path @ '')'' @ v)))
        \<and> NL \<notin> set alt
        \<and> (\<forall>k < length alt. \<not> link_tail_at (drop k (alt @ ''](''  @ path @ '')'' @ v)))
        \<and> path \<noteq> [] \<and> CHR '')'' \<notin> set path \<longrightarrow>
        findall_standard (u @ ''!['' @ alt @ ''](''  @ path @ '')'' @ v) =
          strip_assets path # findall_standard v)
   \<and> ((\<forall>k < length content. \<not> standard_at (drop k content)) \<longrightarrow> findall_standard content = [])
   \<and> (((\<forall>k < length content. \<not> standard_at (drop k content)) \<and> findall_standard content = [])
        \<or> (\<exists>u alt path v. content = u @ ''!['' @ alt @ ''](''  @ path @ '')'' @ v
              \<and> (\<forall>k < length u. \<not> standard_at (drop k content))
              \<and> NL \<notin> set alt
              \<and> (\<forall>k < length alt. \<not> link_tail_at (drop k (alt @ ''](''  @ path @ '')'' @ v)))
              \<and> path \<noteq> [] \<and> CHR '')'' \<notin> set path
              \<and> findall_standard content = strip_assets path # findall_standard v))
   \<and> strip_assets ''assets/c.png'' = ''c.png'' \<and> strip_assets ''assets/'' = ''assets/''
   \<and> strip_assets ''c.png'' = ''c.png''
   \<and> extract_images_from_markdown ''![[a.png]] and ![b](assets/c.png)'' = [''a.png'', ''c.png'']
   \<and> extract_images_from_markdown ''![b](c.png) ![[a.png]] ![[a.png]]'' =
        [''a.png'', ''a.png'', ''c.png'']
   \<and> extract_images_from_markdown ''![Figure [1]](fig.png)'' = [''fig.png'']"
proof -
  have 1: "extract_images_from_markdown content = findall_obsidian content @ findall_standard content"
    by (simp add: extract_images_from_markdown_def)
  have 2: "\<forall>u name v.
        (\<forall>k < length u. \<not> embed_at (drop k (u @ ''![['' @ name @ '']]'' @ v)))
        \<and> name \<noteq> [] \<and> CHR '']'' \<notin> set name \<longrightarrow>
        findall_obsidian (u @ ''![['' @ name @ '']]'' @ v) = name # findall_obsidian v"
    using findall_obsidian_embed by blast
  have 3: "(\<forall>k < length content. \<not> embed_at (drop k content)) \<longrightarrow> findall_obsidian content = []"
    using findall_obsidian_none by blast
  note 4 = findall_obsidian_cases[of content]
  have 5: "\<forall>u alt path v.
        (\<forall>k < length u. \<not> standard_at (drop k (u @ ''!['' @ alt @ ''](''  @ path @ '')'' @ v)))
        \<and> NL \<notin> set alt
        \<and> (\<forall>k < length alt. \<not> link_tail_at (drop k (alt @ ''](''  @ path @ '')'' @ v)))
        \<and> path \<noteq> [] \<and> CHR '')'' \<notin> set path \<longrightarrow>
        findall_standard (u @ ''!['' @ alt @ ''](''  @ path @ '')'' @ v) =
          strip_assets path # findall_standard v"
    using findall_standard_shortest by blast
  have 6: "(\<forall>k < length content. \<not> standard_at (drop k content)) \<longrightarrow> findall_standard content = []"
    using findall_standard_none by blast
  note 7 = findall_standard_cases[of content]
  have 8: "strip_assets ''assets/c.png'' = ''c.png''" "strip_assets ''assets/'' = ''assets/''"
    "strip_assets ''c.png'' = ''c.png''"
    by code_simp+
  have 9: "extract_images_from_markdown ''![[a.png]] and ![b](assets/c.png)'' = [''a.png'', ''c.png'']"
    by code_simp
  have 10: "extract_images_from_markdown ''![b](c.png) ![[a.png]] ![[a.png]]'' =
        [''a.png'', ''a.png'', ''c.png'']"
    by code_simp
  have 11: "extract_images_from_markdown ''![Figure [1]](fig.png)'' = [''fig.png'']"
    by code_simp
  from 1 2 3 4 5 6 7 8 9 10 11 show ?thesis by (intro conjI)
qed

theorem extract_images_scans_witness:
  "\<not> (\<exists>k < length ''see ''. embed_at (drop k (''see '' @ ''![['' @ ''a.png'' @ '']]'' @ '' ![[b.png]]'')))
   \<and> ''a.png'' \<noteq> [] \<and> CHR '']'' \<notin> set ''a.png''
   \<and> findall_obsidian (''see '' @ ''![['' @ ''a.png'' @ '']]'' @ '' ![[b.png]]'') =
        ''a.png'' # findall_obsidian '' ![[b.png]]''
   \<and> \<not> (\<exists>k < length ''plain text''. embed_at (drop k ''plain text''))
   \<and> findall_obsidian ''plain text'' = []
   \<and> \<not> (\<exists>k < length ''x ''. standard_at
            (drop k (''x '' @ ''!['' @ ''Figure [1]'' @ ''](''  @ ''assets/c.png'' @ '')'' @ '' y'')))
   \<and> NL \<notin> set ''Figure [1]''
   \<and> \<not> (\<exists>k < length ''Figure [1]''. link_tail_at
            (drop k (''Figure [1]'' @ ''](''  @ ''assets/c.png'' @ '')'' @ '' y'')))
   \<and> ''assets/c.png'' \<noteq> [] \<and> CHR '')'' \<notin> set ''assets/c.png''
   \<and> findall_standard (''x '' @ ''!['' @ ''Figure [1]'' @ ''](''  @ ''assets/c.png'' @ '')'' @ '' y'') =
        ''c.png'' # findall_standard '' y''
   \<and> \<not> (\<exists>k < length ''plain text''. standard_at (drop k ''plain text''))
   \<and> findall_standard ''plain text'' = []"
proof -
  let ?e = "''see '' @ ''![['' @ ''a.png'' @ '']]'' @ '' ![[b.png]]''"
  let ?t = "''Figure [1]'' @ ''](''  @ ''assets/c.png'' @ '')'' @ '' y''"
  let ?l = "''x '' @ ''!['' @ ''Figure [1]'' @ ''](''  @ ''assets/c.png'' @ '')'' @ '' y''"
  let ?p = "''plain text''"
  note inst = extract_images_scans[of ?p]
  have a: "\<forall>k < length ''see ''. \<not> embed_at (drop k ?e)"
  proof (intro allI impI)
    fix k assume k: "k < length ''see ''"
    have "\<forall>k \<in> set [0..<length ''see '']. obsidian_match (drop k ?e) = None" by code_simp
    with k show "\<not> embed_at (drop k ?e)"
      by (simp only: obsidian_match_None[symmetric]) (metis atLeastLessThan_iff set_upt zero_le)
  qed
  have b: "\<forall>k < length ?p. \<not> embed_at (drop k ?p)"
  proof (intro allI impI)
    fix k assume k: "k < length ?p"
    have "\<forall>k \<in> set [0..<length ?p]. obsidian_match (drop k ?p) = None" by code_simp
    with k show "\<not> embed_at (drop k ?p)"
      by (simp only: obsidian_match_None[symmetric]) (metis atLeastLessThan_iff set_upt zero_le)
  qed
  have c: "\<forall>k < length ''x ''. \<not> standard_at (drop k ?l)"
  proof (intro allI impI)
    fix k assume k: "k < length ''x ''"
    have "\<forall>k \<in> set [0..<length ''x '']. standard_match (drop k ?l) = None" by code_simp
    with k show "\<not> standard_at (drop k ?l)"
      by (simp only: standard_match_None[symmetric]) (metis atLeastLessThan_iff set_upt zero_le)
  qed
  have d: "\<forall>k < length ?p. \<not> standard_at (drop k ?p)"
  proof (intro allI impI)
    fix k assume k: "k < length ?p"
    have "\<forall>k \<in> set [0..<length ?p]. standard_match (drop k ?p) = None" by code_simp
    with k show "\<not> standard_at (drop k ?p)"
      by (simp only: standard_match_None[symmetric]) (metis atLeastLessThan_iff set_upt zero_le)
  qed
  have e: "\<forall>k < length ''Figure [1]''. \<not> link_tail_at (drop k ?t)"
  proof (intro allI impI)
    fix k assume k: "k < length ''Figure [1]''"
    have "\<forall>k \<in> set [0..<length ''Figure [1]'']. standard_tail (drop k ?t) = None" by code_simp
    with k show "\<not> link_tail_at (drop k ?t)"
      by (simp only: standard_tail_None[symmetric]) (metis atLeastLessThan_iff set_upt zero_le)
  qed
  have n: "''a.png'' \<noteq> []" "CHR '']'' \<notin> set ''a.png''" by simp_all
  have m: "NL \<notin> set ''Figure [1]''" "''assets/c.png'' \<noteq> []" "CHR '')'' \<notin> set ''assets/c.png''"
    by (simp_all add: NL_def)
  from inst[THEN conjunct2, THEN conjunct1, rule_format,
      of "''see ''" "''a.png''" "'' ![[b.png]]''", OF conjI[OF a conjI[OF n(1) n(2)]]]
  have 1: "findall_obsidian ?e = ''a.png'' # findall_obsidian '' ![[b.png]]''" .
  from inst[THEN conjunct2, THEN conjunct2, THEN conjunct1, THEN mp, OF b]
  have 2: "findall_obsidian ?p = []" .
  note std = inst[THEN conjunct2, THEN conjunct2, THEN conjunct2, THEN conjunct2]
  from std[THEN conjunct1, rule_format,
      of "''x ''" "''Figure [1]''" "''assets/c.png''" "'' y''",
      OF conjI[OF c conjI[OF m(1) conjI[OF e conjI[OF m(2) m(3)]]]]]
  have "findall_standard ?l = strip_assets ''assets/c.png'' # findall_standard '' y''" .
  moreover from std have "strip_assets ''assets/c.png'' = ''c.png''"
    by (elim conjE)
  ultimately have 3: "findall_standard ?l = ''c.png'' # findall_standard '' y''" by (simp only:)
  from std[THEN conjunct2, THEN conjunct1, THEN mp, OF d]
  have 4: "findall_standard ?p = []" .
  from a have a': "\<not> (\<exists>k < length ''see ''. embed_at (drop k ?e))" by blast
  from b have b': "\<not> (\<exists>k < length ?p. embed_at (drop k ?p))" by blast
  from c have c': "\<not> (\<exists>k < length ''x ''. standard_at (drop k ?l))" by blast
  from d have d': "\<not> (\<exists>k < length ?p. standard_at (drop k ?p))" by blast
  from e have e': "\<not> (\<exists>k < length ''Figure [1]''. link_tail_at (drop k ?t))" by blast
  from a' n 1 b' 2 c' m(1) e' m(2,3) 3 d' 4 show ?thesis by (intro conjI)
qed

end
